theory Spec2Isabelle
  imports Main "HOL-Library.Word"
begin

unbundle bit_operations_syntax

section \<open>Error constants of the SSL engine (inc/bearssl_ssl.h, lines 95-212)\<close>

definition BR_ERR_OK :: int where "BR_ERR_OK = 0"
definition BR_ERR_BAD_PARAM :: int where "BR_ERR_BAD_PARAM = 1"
definition BR_ERR_BAD_STATE :: int where "BR_ERR_BAD_STATE = 2"
definition BR_ERR_UNSUPPORTED_VERSION :: int where "BR_ERR_UNSUPPORTED_VERSION = 3"
definition BR_ERR_BAD_VERSION :: int where "BR_ERR_BAD_VERSION = 4"
definition BR_ERR_BAD_LENGTH :: int where "BR_ERR_BAD_LENGTH = 5"
definition BR_ERR_TOO_LARGE :: int where "BR_ERR_TOO_LARGE = 6"
definition BR_ERR_BAD_MAC :: int where "BR_ERR_BAD_MAC = 7"
definition BR_ERR_NO_RANDOM :: int where "BR_ERR_NO_RANDOM = 8"
definition BR_ERR_UNKNOWN_TYPE :: int where "BR_ERR_UNKNOWN_TYPE = 9"
definition BR_ERR_UNEXPECTED :: int where "BR_ERR_UNEXPECTED = 10"
definition BR_ERR_BAD_CCS :: int where "BR_ERR_BAD_CCS = 12"
definition BR_ERR_BAD_ALERT :: int where "BR_ERR_BAD_ALERT = 13"
definition BR_ERR_BAD_HANDSHAKE :: int where "BR_ERR_BAD_HANDSHAKE = 14"
definition BR_ERR_OVERSIZED_ID :: int where "BR_ERR_OVERSIZED_ID = 15"
definition BR_ERR_BAD_CIPHER_SUITE :: int where "BR_ERR_BAD_CIPHER_SUITE = 16"
definition BR_ERR_BAD_COMPRESSION :: int where "BR_ERR_BAD_COMPRESSION = 17"
definition BR_ERR_BAD_FRAGLEN :: int where "BR_ERR_BAD_FRAGLEN = 18"
definition BR_ERR_BAD_SECRENEG :: int where "BR_ERR_BAD_SECRENEG = 19"
definition BR_ERR_EXTRA_EXTENSION :: int where "BR_ERR_EXTRA_EXTENSION = 20"
definition BR_ERR_BAD_SNI :: int where "BR_ERR_BAD_SNI = 21"
definition BR_ERR_BAD_HELLO_DONE :: int where "BR_ERR_BAD_HELLO_DONE = 22"
definition BR_ERR_LIMIT_EXCEEDED :: int where "BR_ERR_LIMIT_EXCEEDED = 23"
definition BR_ERR_BAD_FINISHED :: int where "BR_ERR_BAD_FINISHED = 24"
definition BR_ERR_RESUME_MISMATCH :: int where "BR_ERR_RESUME_MISMATCH = 25"
definition BR_ERR_INVALID_ALGORITHM :: int where "BR_ERR_INVALID_ALGORITHM = 26"
definition BR_ERR_BAD_SIGNATURE :: int where "BR_ERR_BAD_SIGNATURE = 27"
definition BR_ERR_IO :: int where "BR_ERR_IO = 31"
definition BR_ERR_RECV_FATAL_ALERT :: int where "BR_ERR_RECV_FATAL_ALERT = 256"
definition BR_ERR_SEND_FATAL_ALERT :: int where "BR_ERR_SEND_FATAL_ALERT = 512"

text \<open>Every \<open>BR_ERR_*\<close> macro the header defines, in the order of the header.\<close>

definition br_err_constants :: "int list" where
  "br_err_constants =
    [BR_ERR_OK, BR_ERR_BAD_PARAM, BR_ERR_BAD_STATE, BR_ERR_UNSUPPORTED_VERSION,
     BR_ERR_BAD_VERSION, BR_ERR_BAD_LENGTH, BR_ERR_TOO_LARGE, BR_ERR_BAD_MAC,
     BR_ERR_NO_RANDOM, BR_ERR_UNKNOWN_TYPE, BR_ERR_UNEXPECTED, BR_ERR_BAD_CCS,
     BR_ERR_BAD_ALERT, BR_ERR_BAD_HANDSHAKE, BR_ERR_OVERSIZED_ID,
     BR_ERR_BAD_CIPHER_SUITE, BR_ERR_BAD_COMPRESSION, BR_ERR_BAD_FRAGLEN,
     BR_ERR_BAD_SECRENEG, BR_ERR_EXTRA_EXTENSION, BR_ERR_BAD_SNI,
     BR_ERR_BAD_HELLO_DONE, BR_ERR_LIMIT_EXCEEDED, BR_ERR_BAD_FINISHED,
     BR_ERR_RESUME_MISMATCH, BR_ERR_INVALID_ALGORITHM, BR_ERR_BAD_SIGNATURE,
     BR_ERR_IO, BR_ERR_RECV_FATAL_ALERT, BR_ERR_SEND_FATAL_ALERT]"

section \<open>The LRU session cache (src/ssl/ssl_lru.c)\<close>

subsection \<open>Bytes, addresses and the entry layout\<close>

type_synonym byte = "8 word"
type_synonym u16 = "16 word"
type_synonym u32 = "32 word"

definition SESSION_ID_LEN :: nat where "SESSION_ID_LEN = 32"
definition MASTER_SECRET_LEN :: nat where "MASTER_SECRET_LEN = 48"

definition SESSION_ID_OFF :: nat where "SESSION_ID_OFF = 0"
definition MASTER_SECRET_OFF :: nat where "MASTER_SECRET_OFF = 32"
definition VERSION_OFF :: nat where "VERSION_OFF = 80"
definition CIPHER_SUITE_OFF :: nat where "CIPHER_SUITE_OFF = 82"
definition LIST_PREV_OFF :: nat where "LIST_PREV_OFF = 84"
definition LIST_NEXT_OFF :: nat where "LIST_NEXT_OFF = 88"
definition TREE_LEFT_OFF :: nat where "TREE_LEFT_OFF = 92"
definition TREE_RIGHT_OFF :: nat where "TREE_RIGHT_OFF = 96"

definition LRU_ENTRY_LEN :: nat where "LRU_ENTRY_LEN = 100"

text \<open>\<open>ADDR_NULL\<close> is \<open>(uint32_t)-1\<close>.\<close>

definition ADDR_NULL :: u32 where "ADDR_NULL = - 1"

text \<open>
  Modelled from the spec: the big-endian codecs \<open>br_enc16be\<close>, \<open>br_dec16be\<close>,
  \<open>br_enc32be\<close> and \<open>br_dec32be\<close> are declared in \<open>inner.h\<close>, which is not among the
  sources; the spec's entry layout says "2 BE" and "4 BE", most significant byte first.
\<close>

definition br_enc16be :: "u16 \<Rightarrow> byte list" where
  "br_enc16be v = [ucast (drop_bit 8 v), ucast v]"

fun br_dec16be :: "byte list \<Rightarrow> u16" where
  "br_dec16be (a # b # _) = push_bit 8 (ucast a) OR ucast b"
| "br_dec16be _ = 0"

definition br_enc32be :: "u32 \<Rightarrow> byte list" where
  "br_enc32be v =
     [ucast (drop_bit 24 v), ucast (drop_bit 16 v), ucast (drop_bit 8 v), ucast v]"

fun br_dec32be :: "byte list \<Rightarrow> u32" where
  "br_dec32be (a # b # c # d # _) =
     push_bit 24 (ucast a) OR push_bit 16 (ucast b) OR push_bit 8 (ucast c) OR ucast d"
| "br_dec32be _ = 0"

text \<open>
  \<open>memcmp\<close> over two buffers of the same length: the sign of the difference of the
  first pair of bytes that differ, read as unsigned chars. The code only tests the sign.
\<close>

fun memcmp :: "byte list \<Rightarrow> byte list \<Rightarrow> int" where
  "memcmp (a # as) (b # bs) = (if a = b then memcmp as bs else if a < b then - 1 else 1)"
| "memcmp _ _ = 0"

subsection \<open>Outcomes of the C code\<close>

text \<open>
  The slab is a byte array of known length. An access outside it is undefined behaviour
  in C; the model reports it as the fault \<open>OutOfBounds\<close>. The tree walks are loops with
  no bound of their own: an operation that never leaves its loop has the outcome \<open>None\<close>.
\<close>

datatype fault = OutOfBounds

type_synonym 'a outcome = "(fault + 'a) option"

definition returns :: "'a \<Rightarrow> 'a outcome" where
  "returns v = Some (Inr v)"

definition lift :: "fault + 'a \<Rightarrow> 'a outcome" where
  "lift r = Some r"

definition and_then :: "'a outcome \<Rightarrow> ('a \<Rightarrow> 'b outcome) \<Rightarrow> 'b outcome" where
  "and_then m f = (case m of None \<Rightarrow> None | Some (Inl e) \<Rightarrow> Some (Inl e) | Some (Inr v) \<Rightarrow> f v)"

text \<open>The \<open>n\<close> bytes at offset \<open>a\<close>, and the slab with the bytes \<open>bs\<close> written at \<open>a\<close>.\<close>

definition peek :: "byte list \<Rightarrow> nat \<Rightarrow> nat \<Rightarrow> byte list" where
  "peek st a n = take n (drop a st)"

definition overwrite :: "byte list \<Rightarrow> nat \<Rightarrow> byte list \<Rightarrow> byte list" where
  "overwrite st a bs = take a st @ bs @ drop (a + length bs) st"

definition load_bytes :: "byte list \<Rightarrow> nat \<Rightarrow> nat \<Rightarrow> fault + byte list" where
  "load_bytes st a n = (if a + n \<le> length st then Inr (peek st a n) else Inl OutOfBounds)"

definition store_bytes :: "byte list \<Rightarrow> nat \<Rightarrow> byte list \<Rightarrow> fault + byte list" where
  "store_bytes st a bs =
     (if a + length bs \<le> length st then Inr (overwrite st a bs) else Inl OutOfBounds)"

subsection \<open>The cache context, the session parameters and the server context\<close>

text \<open>
  \<open>br_ssl_session_cache_lru\<close> (inc/bearssl_ssl.h, lines 2171-2181) without its vtable
  pointer. \<open>store\<close> is the caller's buffer; \<open>store_len\<close> and \<open>store_ptr\<close> are
  \<open>size_t\<close>, documented to stay below \<open>2^32\<close>, and are natural numbers here;
  \<open>hash\<close> is a pointer to a hash class, of an abstract type \<open>'h\<close>.
\<close>

record 'h br_ssl_session_cache_lru =
  store :: "byte list"
  store_len :: nat
  store_ptr :: nat
  index_key :: "byte list"
  hash :: 'h
  init_done :: bool
  head :: u32
  tail :: u32
  root :: u32

text \<open>\<open>br_ssl_session_parameters\<close> (inc/bearssl_ssl.h, lines 593-604).\<close>

record br_ssl_session_parameters =
  session_id :: "byte list"
  session_id_len :: byte
  version :: u16
  cipher_suite :: u16
  master_secret :: "byte list"

text \<open>
  The two arrays of the C structure have fixed sizes: 32 and 48 bytes.
\<close>

definition params_ok :: "br_ssl_session_parameters \<Rightarrow> bool" where
  "params_ok p \<longleftrightarrow>
     length (session_id p) = SESSION_ID_LEN \<and> length (master_secret p) = MASTER_SECRET_LEN"

text \<open>
  Of the server context, the cache uses the DRBG of the engine only (\<open>eng.rng\<close>); its
  state has an abstract type \<open>'r\<close>.
\<close>

record 'r br_ssl_server_context =
  rng :: 'r

text \<open>
  The primitives the cache calls and whose code is not among the sources are parameters:
  \<open>br_hmac_drbg_generate\<close> (the bytes drawn for a requested length, and the next DRBG
  state), \<open>br_hmac_drbg_get_hash\<close> (the hash class of a DRBG), and \<open>hmac\<close>, the HMAC
  value of full digest length for a hash class, a key and a message.
\<close>

record ('r, 'h) primitives =
  br_hmac_drbg_generate :: "'r \<Rightarrow> nat \<Rightarrow> byte list \<times> 'r"
  br_hmac_drbg_get_hash :: "'r \<Rightarrow> 'h"
  hmac :: "'h \<Rightarrow> byte list \<Rightarrow> byte list \<Rightarrow> byte list"

text \<open>
  Modelled from the spec: \<open>br_hmac_key_init\<close>, \<open>br_hmac_init\<close>, \<open>br_hmac_update\<close> and
  \<open>br_hmac_out\<close> are not among the sources. The spec says the HMAC value is "truncated"
  to the 32 bytes of a session ID when it is longer; \<open>mask_id\<close> asks for an output of
  \<open>SESSION_ID_LEN\<close> bytes, and \<open>br_hmac_out\<close> writes the first \<open>out_len\<close> bytes of
  the HMAC value, or all of it when it is not longer than \<open>out_len\<close> (or \<open>out_len\<close> is 0).
\<close>

definition br_hmac_out ::
  "('r, 'h) primitives \<Rightarrow> 'h \<Rightarrow> byte list \<Rightarrow> nat \<Rightarrow> byte list \<Rightarrow> byte list" where
  "br_hmac_out P h key out_len msg =
     (let full = hmac P h key msg
      in if 0 < out_len \<and> out_len < length full then take out_len full else full)"

subsection \<open>Field accessors (the \<open>GETSET\<close> macro, lines 83-97)\<close>

definition get32 :: "'h br_ssl_session_cache_lru \<Rightarrow> nat \<Rightarrow> fault + u32" where
  "get32 cc a =
     (case load_bytes (store cc) a 4 of Inl e \<Rightarrow> Inl e | Inr bs \<Rightarrow> Inr (br_dec32be bs))"

definition set32 ::
  "'h br_ssl_session_cache_lru \<Rightarrow> nat \<Rightarrow> u32 \<Rightarrow> fault + 'h br_ssl_session_cache_lru" where
  "set32 cc a v =
     (case store_bytes (store cc) a (br_enc32be v) of
        Inl e \<Rightarrow> Inl e
      | Inr st \<Rightarrow> Inr (cc\<lparr>store := st\<rparr>))"

definition get_prev :: "'h br_ssl_session_cache_lru \<Rightarrow> u32 \<Rightarrow> fault + u32" where
  "get_prev cc x = get32 cc (unat x + LIST_PREV_OFF)"

definition set_prev ::
  "'h br_ssl_session_cache_lru \<Rightarrow> u32 \<Rightarrow> u32 \<Rightarrow> fault + 'h br_ssl_session_cache_lru" where
  "set_prev cc x v = set32 cc (unat x + LIST_PREV_OFF) v"

definition get_next :: "'h br_ssl_session_cache_lru \<Rightarrow> u32 \<Rightarrow> fault + u32" where
  "get_next cc x = get32 cc (unat x + LIST_NEXT_OFF)"

definition set_next ::
  "'h br_ssl_session_cache_lru \<Rightarrow> u32 \<Rightarrow> u32 \<Rightarrow> fault + 'h br_ssl_session_cache_lru" where
  "set_next cc x v = set32 cc (unat x + LIST_NEXT_OFF) v"

definition get_left :: "'h br_ssl_session_cache_lru \<Rightarrow> u32 \<Rightarrow> fault + u32" where
  "get_left cc x = get32 cc (unat x + TREE_LEFT_OFF)"

definition set_left ::
  "'h br_ssl_session_cache_lru \<Rightarrow> u32 \<Rightarrow> u32 \<Rightarrow> fault + 'h br_ssl_session_cache_lru" where
  "set_left cc x v = set32 cc (unat x + TREE_LEFT_OFF) v"

definition get_right :: "'h br_ssl_session_cache_lru \<Rightarrow> u32 \<Rightarrow> fault + u32" where
  "get_right cc x = get32 cc (unat x + TREE_RIGHT_OFF)"

definition set_right ::
  "'h br_ssl_session_cache_lru \<Rightarrow> u32 \<Rightarrow> u32 \<Rightarrow> fault + 'h br_ssl_session_cache_lru" where
  "set_right cc x v = set32 cc (unat x + TREE_RIGHT_OFF) v"

subsection \<open>\<open>mask_id\<close> (lines 111-123)\<close>

text \<open>
  \<open>memcpy\<close> first copies the 32 bytes of the raw ID; \<open>br_hmac_out\<close> then overwrites
  the first bytes with the HMAC output.
\<close>

definition mask_id ::
  "('r, 'h) primitives \<Rightarrow> 'h br_ssl_session_cache_lru \<Rightarrow> byte list \<Rightarrow> byte list" where
  "mask_id P cc src =
     (let dst = take SESSION_ID_LEN src;
          out = br_hmac_out P (hash cc) (index_key cc) SESSION_ID_LEN (take SESSION_ID_LEN src)
      in out @ drop (length out) dst)"

subsection \<open>\<open>find_node\<close> (lines 133-162)\<close>

text \<open>
  The loop of \<open>find_node\<close>, from the current node \<open>x\<close> and last followed link \<open>y\<close>.
  The ID is passed by pointer in C and read by \<open>memcmp\<close> only: \<open>idp\<close> is what the
  pointer designates, a fault when it lies outside the slab. The result is the pair of
  the returned address and \<open>*addr_link\<close>.
\<close>

partial_function (option) find_node_loop ::
  "'h br_ssl_session_cache_lru \<Rightarrow> fault + byte list \<Rightarrow> u32 \<Rightarrow> u32 \<Rightarrow> (u32 \<times> u32) outcome" where
  "find_node_loop cc idp x y =
     (if x \<noteq> ADDR_NULL then
        (case idp of
           Inl e \<Rightarrow> Some (Inl e)
         | Inr idb \<Rightarrow>
            (case load_bytes (store cc) (unat x + SESSION_ID_OFF) SESSION_ID_LEN of
               Inl e \<Rightarrow> Some (Inl e)
             | Inr k \<Rightarrow>
                (if memcmp (take SESSION_ID_LEN idb) k < 0 then
                   (case get_left cc x of
                      Inl e \<Rightarrow> Some (Inl e)
                    | Inr l \<Rightarrow> find_node_loop cc idp l (x + of_nat TREE_LEFT_OFF))
                 else if memcmp (take SESSION_ID_LEN idb) k = 0 then
                   Some (Inr (x, y))
                 else
                   (case get_right cc x of
                      Inl e \<Rightarrow> Some (Inl e)
                    | Inr r \<Rightarrow> find_node_loop cc idp r (x + of_nat TREE_RIGHT_OFF)))))
      else Some (Inr (ADDR_NULL, y)))"

declare find_node_loop.simps [code]

definition find_node ::
  "'h br_ssl_session_cache_lru \<Rightarrow> fault + byte list \<Rightarrow> (u32 \<times> u32) outcome" where
  "find_node cc idp = find_node_loop cc idp (root cc) ADDR_NULL"

subsection \<open>\<open>find_replacement_node\<close> (lines 175-212)\<close>

text \<open>The first loop: from \<open>y1\<close>, follow right links to the rightmost descendant.\<close>

partial_function (option) find_replacement_rightmost ::
  "'h br_ssl_session_cache_lru \<Rightarrow> u32 \<Rightarrow> u32 \<Rightarrow> (u32 \<times> u32) outcome" where
  "find_replacement_rightmost cc y1 y2 =
     (case get_right cc y1 of
        Inl e \<Rightarrow> Some (Inl e)
      | Inr z \<Rightarrow>
         (if z = ADDR_NULL then Some (Inr (y1, y2))
          else find_replacement_rightmost cc z (y1 + of_nat TREE_RIGHT_OFF)))"

declare find_replacement_rightmost.simps [code]

text \<open>The second loop: from \<open>y1\<close>, follow left links to the leftmost descendant.\<close>

partial_function (option) find_replacement_leftmost ::
  "'h br_ssl_session_cache_lru \<Rightarrow> u32 \<Rightarrow> u32 \<Rightarrow> (u32 \<times> u32) outcome" where
  "find_replacement_leftmost cc y1 y2 =
     (case get_left cc y1 of
        Inl e \<Rightarrow> Some (Inl e)
      | Inr z \<Rightarrow>
         (if z = ADDR_NULL then Some (Inr (y1, y2))
          else find_replacement_leftmost cc z (y1 + of_nat TREE_LEFT_OFF)))"

declare find_replacement_leftmost.simps [code]

text \<open>The result is the pair of the returned node and \<open>*al\<close>.\<close>

definition find_replacement_node ::
  "'h br_ssl_session_cache_lru \<Rightarrow> u32 \<Rightarrow> (u32 \<times> u32) outcome" where
  "find_replacement_node cc x =
     and_then (lift (get_left cc x)) (\<lambda>y1.
       if y1 \<noteq> ADDR_NULL then find_replacement_rightmost cc y1 (x + of_nat TREE_LEFT_OFF)
       else
         and_then (lift (get_right cc x)) (\<lambda>y1.
           if y1 \<noteq> ADDR_NULL then find_replacement_leftmost cc y1 (x + of_nat TREE_RIGHT_OFF)
           else returns (ADDR_NULL, ADDR_NULL)))"

subsection \<open>\<open>set_link\<close> and \<open>remove_node\<close> (lines 214-248)\<close>

definition set_link ::
  "'h br_ssl_session_cache_lru \<Rightarrow> u32 \<Rightarrow> u32 \<Rightarrow> fault + 'h br_ssl_session_cache_lru" where
  "set_link cc alx x =
     (if alx = ADDR_NULL then Inr (cc\<lparr>root := x\<rparr>) else set32 cc (unat alx) x)"

definition remove_node ::
  "'h br_ssl_session_cache_lru \<Rightarrow> u32 \<Rightarrow> 'h br_ssl_session_cache_lru outcome" where
  "remove_node cc x =
     and_then (find_node cc (load_bytes (store cc) (unat x + SESSION_ID_OFF) SESSION_ID_LEN))
       (\<lambda>(_, alx).
     and_then (find_replacement_node cc x) (\<lambda>(y, aly).
     and_then (lift (set_link cc aly ADDR_NULL)) (\<lambda>cc.
     lift (set_link cc alx y))))"

subsection \<open>\<open>lru_save\<close> (lines 250-354)\<close>

text \<open>Lines 269-278: the key and the hash are obtained upon the first save.\<close>

definition lru_save_init ::
  "('r, 'h) primitives \<Rightarrow> 'h br_ssl_session_cache_lru \<Rightarrow> 'r br_ssl_server_context \<Rightarrow>
   'h br_ssl_session_cache_lru \<times> 'r br_ssl_server_context" where
  "lru_save_init P cc server_ctx =
     (if \<not> init_done cc then
        (let (key, r) = br_hmac_drbg_generate P (rng server_ctx) 32
         in (cc\<lparr>index_key := key, hash := br_hmac_drbg_get_hash P r, init_done := True\<rparr>,
             server_ctx\<lparr>rng := r\<rparr>))
      else (cc, server_ctx))"

text \<open>
  Lines 300-323: room for the new entry, by eviction of the list tail when the slab is
  full, by allocation at \<open>store_ptr\<close> otherwise. The result is the cache and \<open>x\<close>.
\<close>

definition lru_save_room ::
  "'h br_ssl_session_cache_lru \<Rightarrow> ('h br_ssl_session_cache_lru \<times> u32) outcome" where
  "lru_save_room cc =
     (if store_ptr cc > store_len cc - LRU_ENTRY_LEN then
        (let x = tail cc in
         and_then (lift (get_prev cc x)) (\<lambda>t.
         let cc = cc\<lparr>tail := t\<rparr> in
         and_then
           (if tail cc = ADDR_NULL then returns (cc\<lparr>head := ADDR_NULL\<rparr>)
            else lift (set_next cc (tail cc) ADDR_NULL)) (\<lambda>cc.
         and_then (remove_node cc x) (\<lambda>cc. returns (cc, x)))))
      else
        (let x = (of_nat (store_ptr cc) :: u32) in
         returns (cc\<lparr>store_ptr := store_ptr cc + LRU_ENTRY_LEN\<rparr>, x)))"

text \<open>Lines 325-353: the new node is linked in the tree and in the list, then filled.\<close>

definition lru_save_link ::
  "'h br_ssl_session_cache_lru \<Rightarrow> u32 \<Rightarrow> byte list \<Rightarrow> br_ssl_session_parameters \<Rightarrow>
   'h br_ssl_session_cache_lru outcome" where
  "lru_save_link cc x idb params =
     and_then (find_node cc (Inr idb)) (\<lambda>(_, alx).
     and_then (lift (set_link cc alx x)) (\<lambda>cc.
     and_then (lift (set_left cc x ADDR_NULL)) (\<lambda>cc.
     and_then (lift (set_right cc x ADDR_NULL)) (\<lambda>cc.
     and_then
       (if head cc = ADDR_NULL then returns (cc\<lparr>tail := x\<rparr>)
        else lift (set_prev cc (head cc) x)) (\<lambda>cc.
     and_then (lift (set_prev cc x ADDR_NULL)) (\<lambda>cc.
     and_then (lift (set_next cc x (head cc))) (\<lambda>cc.
     let cc = cc\<lparr>head := x\<rparr> in
     and_then (lift (store_bytes (store cc) (unat x + SESSION_ID_OFF)
                  (take SESSION_ID_LEN idb))) (\<lambda>st.
     and_then (lift (store_bytes st (unat x + MASTER_SECRET_OFF)
                  (take MASTER_SECRET_LEN (master_secret params)))) (\<lambda>st.
     and_then (lift (store_bytes st (unat x + VERSION_OFF)
                  (br_enc16be (version params)))) (\<lambda>st.
     and_then (lift (store_bytes st (unat x + CIPHER_SUITE_OFF)
                  (br_enc16be (cipher_suite params)))) (\<lambda>st.
     returns (cc\<lparr>store := st\<rparr>))))))))))))"

definition lru_save ::
  "('r, 'h) primitives \<Rightarrow> 'h br_ssl_session_cache_lru \<Rightarrow> 'r br_ssl_server_context \<Rightarrow>
   br_ssl_session_parameters \<Rightarrow>
   ('h br_ssl_session_cache_lru \<times> 'r br_ssl_server_context) outcome" where
  "lru_save P cc server_ctx params =
     (if store_len cc < LRU_ENTRY_LEN then returns (cc, server_ctx)
      else
        (let (cc, server_ctx) = lru_save_init P cc server_ctx;
             idb = mask_id P cc (session_id params)
         in and_then (find_node cc (Inr idb)) (\<lambda>(f, _).
              if f \<noteq> ADDR_NULL then returns (cc, server_ctx)
              else
                and_then (lru_save_room cc) (\<lambda>(cc, x).
                and_then (lru_save_link cc x idb params) (\<lambda>cc.
                returns (cc, server_ctx))))))"

subsection \<open>\<open>lru_load\<close> (lines 356-403)\<close>

text \<open>Lines 380-399: the found node, when it is not the list head, is moved there.\<close>

definition lru_load_move ::
  "'h br_ssl_session_cache_lru \<Rightarrow> u32 \<Rightarrow> 'h br_ssl_session_cache_lru outcome" where
  "lru_load_move cc x =
     (if x \<noteq> head cc then
        and_then (lift (get_prev cc x)) (\<lambda>p.
        and_then (lift (get_next cc x)) (\<lambda>n.
        and_then (lift (set_next cc p n)) (\<lambda>cc.
        and_then
          (if n = ADDR_NULL then returns (cc\<lparr>tail := p\<rparr>)
           else lift (set_prev cc n p)) (\<lambda>cc.
        and_then (lift (set_prev cc (head cc) x)) (\<lambda>cc.
        and_then (lift (set_next cc x (head cc))) (\<lambda>cc.
        and_then (lift (set_prev cc x ADDR_NULL)) (\<lambda>cc.
        returns (cc\<lparr>head := x\<rparr>))))))))
      else returns cc)"

text \<open>
  The result is the returned \<open>int\<close>, the cache, the server context (which the function
  receives and does not use) and the caller's parameters structure.
\<close>

definition lru_load ::
  "('r, 'h) primitives \<Rightarrow> 'h br_ssl_session_cache_lru \<Rightarrow> 'r br_ssl_server_context \<Rightarrow>
   br_ssl_session_parameters \<Rightarrow>
   (int \<times> 'h br_ssl_session_cache_lru \<times> 'r br_ssl_server_context \<times>
    br_ssl_session_parameters) outcome" where
  "lru_load P cc server_ctx params =
     (if \<not> init_done cc then returns (0, cc, server_ctx, params)
      else
        (let idb = mask_id P cc (session_id params)
         in and_then (find_node cc (Inr idb)) (\<lambda>(x, _).
              if x \<noteq> ADDR_NULL then
                and_then (lift (load_bytes (store cc) (unat x + VERSION_OFF) 2)) (\<lambda>v.
                and_then (lift (load_bytes (store cc) (unat x + CIPHER_SUITE_OFF) 2)) (\<lambda>c.
                and_then (lift (load_bytes (store cc) (unat x + MASTER_SECRET_OFF)
                             MASTER_SECRET_LEN)) (\<lambda>ms.
                let params = params\<lparr>version := br_dec16be v, cipher_suite := br_dec16be c,
                                     master_secret := ms\<rparr> in
                and_then (lru_load_move cc x) (\<lambda>cc.
                returns (1, cc, server_ctx, params)))))
              else returns (0, cc, server_ctx, params))))"

subsection \<open>\<open>br_ssl_session_cache_lru_init\<close> (lines 412-424)\<close>

text \<open>
  The function sets every field but \<open>index_key\<close> and \<open>hash\<close>, which keep whatever the
  caller's structure held.
\<close>

definition br_ssl_session_cache_lru_init ::
  "'h br_ssl_session_cache_lru \<Rightarrow> byte list \<Rightarrow> nat \<Rightarrow> 'h br_ssl_session_cache_lru" where
  "br_ssl_session_cache_lru_init cc st len =
     cc\<lparr>store := st, store_len := len, store_ptr := 0, init_done := False,
        head := ADDR_NULL, tail := ADDR_NULL, root := ADDR_NULL\<rparr>"

section \<open>Views of the slab\<close>

definition fld :: "'h br_ssl_session_cache_lru \<Rightarrow> nat \<Rightarrow> u32" where
  "fld cc a = br_dec32be (peek (store cc) a 4)"

definition prev_of :: "'h br_ssl_session_cache_lru \<Rightarrow> u32 \<Rightarrow> u32" where
  "prev_of cc x = fld cc (unat x + LIST_PREV_OFF)"

definition next_of :: "'h br_ssl_session_cache_lru \<Rightarrow> u32 \<Rightarrow> u32" where
  "next_of cc x = fld cc (unat x + LIST_NEXT_OFF)"

definition left_of :: "'h br_ssl_session_cache_lru \<Rightarrow> u32 \<Rightarrow> u32" where
  "left_of cc x = fld cc (unat x + TREE_LEFT_OFF)"

definition right_of :: "'h br_ssl_session_cache_lru \<Rightarrow> u32 \<Rightarrow> u32" where
  "right_of cc x = fld cc (unat x + TREE_RIGHT_OFF)"

definition key_of :: "'h br_ssl_session_cache_lru \<Rightarrow> u32 \<Rightarrow> byte list" where
  "key_of cc x = peek (store cc) (unat x + SESSION_ID_OFF) SESSION_ID_LEN"

definition poke32 ::
  "'h br_ssl_session_cache_lru \<Rightarrow> nat \<Rightarrow> u32 \<Rightarrow> 'h br_ssl_session_cache_lru" where
  "poke32 cc a v = cc\<lparr>store := overwrite (store cc) a (br_enc32be v)\<rparr>"

definition pokeb ::
  "'h br_ssl_session_cache_lru \<Rightarrow> nat \<Rightarrow> byte list \<Rightarrow> 'h br_ssl_session_cache_lru" where
  "pokeb cc a bs = cc\<lparr>store := overwrite (store cc) a bs\<rparr>"

definition slot :: "'h br_ssl_session_cache_lru \<Rightarrow> u32 \<Rightarrow> bool" where
  "slot cc x \<longleftrightarrow> unat x mod LRU_ENTRY_LEN = 0 \<and> unat x + LRU_ENTRY_LEN \<le> length (store cc)"

definition below :: "nat \<Rightarrow> u32 \<Rightarrow> bool" where
  "below n x \<longleftrightarrow> unat x mod LRU_ENTRY_LEN = 0 \<and> unat x < n"

definition null_or_below :: "nat \<Rightarrow> u32 \<Rightarrow> bool" where
  "null_or_below n v \<longleftrightarrow> v = ADDR_NULL \<or> below n v"

definition link_addr :: "nat \<Rightarrow> u32 \<Rightarrow> bool" where
  "link_addr n al \<longleftrightarrow>
     al = ADDR_NULL \<or>
     (\<exists>w. below n w \<and> (al = w + of_nat TREE_LEFT_OFF \<or> al = w + of_nat TREE_RIGHT_OFF))"

definition tree_ok :: "'h br_ssl_session_cache_lru \<Rightarrow> nat \<Rightarrow> bool" where
  "tree_ok cc n \<longleftrightarrow>
     null_or_below n (root cc) \<and>
     (\<forall>z. below n z \<longrightarrow> null_or_below n (left_of cc z) \<and> null_or_below n (right_of cc z))"

definition slab_ok :: "'h br_ssl_session_cache_lru \<Rightarrow> bool" where
  "slab_ok cc \<longleftrightarrow>
     length (store cc) = store_len cc \<and> store_len cc < 2 ^ 32 \<and>
     store_ptr cc mod LRU_ENTRY_LEN = 0 \<and> store_ptr cc \<le> store_len cc"

text \<open>The 100 bytes of an entry, field after field.\<close>

definition entry_bytes ::
  "byte list \<Rightarrow> byte list \<Rightarrow> u16 \<Rightarrow> u16 \<Rightarrow> u32 \<Rightarrow> u32 \<Rightarrow> u32 \<Rightarrow> u32 \<Rightarrow> byte list" where
  "entry_bytes masked_id secret ver suite list_prev list_next tree_left tree_right =
     masked_id @ secret @ br_enc16be ver @ br_enc16be suite @ br_enc32be list_prev @
     br_enc32be list_next @ br_enc32be tree_left @ br_enc32be tree_right"

text \<open>The lexicographic order on byte strings, bytes compared as unsigned numbers.\<close>

definition lex_less :: "byte list \<Rightarrow> byte list \<Rightarrow> bool" where
  "lex_less a b \<longleftrightarrow> (a, b) \<in> lexord {(x, y). x < y}"

section \<open>Invariants\<close>

text \<open>
  A doubly-linked list over the nodes \<open>E\<close> with null address \<open>N\<close>, head \<open>h\<close>, tail
  \<open>t\<close> and link functions \<open>prv\<close> and \<open>nxt\<close>: links stay among the nodes, the head
  is the node without predecessor, the tail the node without successor, and the two
  links are inverse to each other.
\<close>

definition dlist_core ::
  "'a \<Rightarrow> 'a set \<Rightarrow> 'a \<Rightarrow> 'a \<Rightarrow> ('a \<Rightarrow> 'a) \<Rightarrow> ('a \<Rightarrow> 'a) \<Rightarrow> bool" where
  "dlist_core N E h t prv nxt \<longleftrightarrow>
     N \<notin> E \<and> (h = N \<or> h \<in> E) \<and> (t = N \<or> t \<in> E) \<and> (h = N \<longleftrightarrow> t = N) \<and>
     (\<forall>z\<in>E. (prv z = N \<or> prv z \<in> E) \<and> (nxt z = N \<or> nxt z \<in> E) \<and>
             (prv z = N \<longleftrightarrow> z = h) \<and> (nxt z = N \<longleftrightarrow> z = t) \<and>
             (nxt z \<noteq> N \<longrightarrow> prv (nxt z) = z) \<and> (prv z \<noteq> N \<longrightarrow> nxt (prv z) = z))"

definition dlist_inv ::
  "'a \<Rightarrow> 'a set \<Rightarrow> 'a \<Rightarrow> 'a \<Rightarrow> ('a \<Rightarrow> 'a) \<Rightarrow> ('a \<Rightarrow> 'a) \<Rightarrow> bool" where
  "dlist_inv N E h t prv nxt \<longleftrightarrow> dlist_core N E h t prv nxt \<and> (E \<noteq> {} \<longrightarrow> h \<noteq> N)"
text \<open>The addresses of the allocated entries.\<close>

definition entries :: "'h br_ssl_session_cache_lru \<Rightarrow> u32 set" where
  "entries cc = {x. below (store_ptr cc) x}"

text \<open>
  The invariant of the cache: the slab is the store, allocation is by whole entries
  inside it, the tree links and the list links of the allocated entries designate
  allocated entries, and the list is a doubly-linked list of all of them.
\<close>

definition lru_inv :: "'h br_ssl_session_cache_lru \<Rightarrow> bool" where
  "lru_inv cc \<longleftrightarrow>
     slab_ok cc \<and> tree_ok cc (store_ptr cc) \<and>
     dlist_inv ADDR_NULL (entries cc) (head cc) (tail cc) (prev_of cc) (next_of cc)"

text \<open>
  Between the two halves of \<open>lru_save\<close>: the entry \<open>x\<close> is out of the list, and the
  tree links are below \<open>n\<close>, which is \<open>store_ptr\<close> after an eviction and the former
  \<open>store_ptr\<close>, the address of \<open>x\<close>, after an allocation.
\<close>

definition save_mid :: "'h br_ssl_session_cache_lru \<Rightarrow> u32 \<Rightarrow> nat \<Rightarrow> bool" where
  "save_mid cc x n \<longleftrightarrow>
     slab_ok cc \<and> below (store_ptr cc) x \<and> tree_ok cc n \<and> n mod LRU_ENTRY_LEN = 0 \<and>
     (n = store_ptr cc \<or> (n + LRU_ENTRY_LEN = store_ptr cc \<and> unat x = n)) \<and>
     dlist_core ADDR_NULL (entries cc - {x}) (head cc) (tail cc) (prev_of cc) (next_of cc)"

text \<open>
  \<open>cc'\<close> differs from \<open>cc\<close> at most in \<open>root\<close> and in tree links of entries.
\<close>

definition tree_only :: "'h br_ssl_session_cache_lru \<Rightarrow> 'h br_ssl_session_cache_lru \<Rightarrow> bool" where
  "tree_only cc cc' \<longleftrightarrow>
     length (store cc') = length (store cc) \<and> store_len cc' = store_len cc \<and>
     store_ptr cc' = store_ptr cc \<and> index_key cc' = index_key cc \<and> hash cc' = hash cc \<and>
     init_done cc' = init_done cc \<and> head cc' = head cc \<and> tail cc' = tail cc \<and>
     (\<forall>z. unat z mod LRU_ENTRY_LEN = 0 \<longrightarrow>
        prev_of cc' z = prev_of cc z \<and> next_of cc' z = next_of cc z \<and>
        peek (store cc') (unat z) LIST_PREV_OFF = peek (store cc) (unat z) LIST_PREV_OFF)"

text \<open>
  The invariant as the allocation claim words it: \<open>store_ptr\<close> is a multiple of 100 not
  above \<open>store_len\<close>, and \<open>head\<close>, \<open>tail\<close>, \<open>root\<close> and the four links of every
  allocated entry are null or a multiple of 100 below \<open>store_ptr\<close>.
\<close>

definition link_ok :: "'h br_ssl_session_cache_lru \<Rightarrow> u32 \<Rightarrow> bool" where
  "link_ok cc v \<longleftrightarrow>
     v = 0xFFFFFFFF \<or> (unat v mod 100 = 0 \<and> unat v < store_ptr cc)"

definition alloc_inv :: "'h br_ssl_session_cache_lru \<Rightarrow> bool" where
  "alloc_inv cc \<longleftrightarrow>
     store_ptr cc mod 100 = 0 \<and> store_ptr cc \<le> store_len cc \<and>
     link_ok cc (head cc) \<and> link_ok cc (tail cc) \<and> link_ok cc (root cc) \<and>
     (\<forall>x. unat x mod 100 = 0 \<and> unat x < store_ptr cc \<longrightarrow>
        link_ok cc (prev_of cc x) \<and> link_ok cc (next_of cc x) \<and>
        link_ok cc (left_of cc x) \<and> link_ok cc (right_of cc x))"

text \<open>
  The caches a program can hold: one initialised over a slab of the stated length, which
  the documentation bounds by 4294967295, and then used through \<open>save\<close> and \<open>load\<close>
  calls that returned.
\<close>

inductive reachable :: "('r, 'h) primitives \<Rightarrow> 'h br_ssl_session_cache_lru \<Rightarrow> bool"
  for P :: "('r, 'h) primitives" where
  init: "length st = len \<Longrightarrow> len < 2 ^ 32 \<Longrightarrow>
         reachable P (br_ssl_session_cache_lru_init c st len)"
| save: "reachable P cc \<Longrightarrow> lru_save P cc server_ctx params = Some (Inr (cc', server_ctx')) \<Longrightarrow>
         reachable P cc'"
| load: "reachable P cc \<Longrightarrow>
         lru_load P cc server_ctx params = Some (Inr (res, cc', server_ctx', params')) \<Longrightarrow>
         reachable P cc'"

section \<open>Concrete instances\<close>

text \<open>
  A DRBG that counts its calls, and an HMAC whose value for every key is the message
  itself, so that the masked ID of a 32-byte session ID is that session ID.
\<close>

definition demo_primitives :: "(nat, unit) primitives" where
  "demo_primitives =
     \<lparr>br_hmac_drbg_generate = (\<lambda>r n. (replicate n (of_nat r), Suc r)),
      br_hmac_drbg_get_hash = (\<lambda>r. ()),
      hmac = (\<lambda>h k m. m)\<rparr>"

text \<open>
  The same DRBG with an HMAC of 20 bytes, the length of a SHA-1 output: the bytewise sum
  of the key and the message, cut to 20 bytes. The masked ID then differs from the raw ID
  and keeps its last 12 bytes.
\<close>

definition demo_primitives_short :: "(nat, unit) primitives" where
  "demo_primitives_short =
     \<lparr>br_hmac_drbg_generate = (\<lambda>r n. (replicate n (of_nat r), Suc r)),
      br_hmac_drbg_get_hash = (\<lambda>r. ()),
      hmac = (\<lambda>h k m. take 20 (map (\<lambda>(a, b). a + b) (zip k m)))\<rparr>"

text \<open>The session whose ID is 31 zero bytes followed by the byte \<open>k\<close>.\<close>

definition demo_session :: "nat \<Rightarrow> br_ssl_session_parameters" where
  "demo_session k =
     \<lparr>session_id = replicate 31 0 @ [of_nat k], session_id_len = 32, version = 0x0303,
      cipher_suite = of_nat (k + 100), master_secret = replicate 48 (of_nat k)\<rparr>"

text \<open>The parameters structure a caller passes to \<open>load\<close>: only the ID is filled.\<close>

definition demo_query :: "nat \<Rightarrow> br_ssl_session_parameters" where
  "demo_query k =
     \<lparr>session_id = replicate 31 0 @ [of_nat k], session_id_len = 32, version = 0,
      cipher_suite = 0, master_secret = replicate 48 0\<rparr>"

definition blank_cache :: "unit br_ssl_session_cache_lru" where
  "blank_cache =
     \<lparr>store = [], store_len = 0, store_ptr = 0, index_key = [], hash = (),
      init_done = False, head = 0, tail = 0, root = 0\<rparr>"

text \<open>A cache initialised over a zeroed slab of \<open>n\<close> bytes.\<close>

definition demo_cache :: "nat \<Rightarrow> unit br_ssl_session_cache_lru" where
  "demo_cache n = br_ssl_session_cache_lru_init blank_cache (replicate n 0) n"

definition demo_server :: "nat br_ssl_server_context" where
  "demo_server = \<lparr>rng = 7\<rparr>"

text \<open>
  The bytes of the entry that holds \<open>demo_session k\<close>, with the given list and tree
  links, and a cache past its first save: the key is the 32 bytes the counting DRBG
  returns in state 7.
\<close>

definition demo_entry :: "nat \<Rightarrow> u32 \<Rightarrow> u32 \<Rightarrow> u32 \<Rightarrow> u32 \<Rightarrow> byte list" where
  "demo_entry k list_prev list_next tree_left tree_right =
     entry_bytes (session_id (demo_session k)) (master_secret (demo_session k))
       (version (demo_session k)) (cipher_suite (demo_session k))
       list_prev list_next tree_left tree_right"

definition demo_state ::
  "byte list \<Rightarrow> nat \<Rightarrow> u32 \<Rightarrow> u32 \<Rightarrow> u32 \<Rightarrow> unit br_ssl_session_cache_lru" where
  "demo_state st ptr list_head list_tail tree_root =
     \<lparr>store = st, store_len = length st, store_ptr = ptr, index_key = replicate 32 7,
      hash = (), init_done = True, head = list_head, tail = list_tail, root = tree_root\<rparr>"

definition demo_server_used :: "nat br_ssl_server_context" where
  "demo_server_used = \<lparr>rng = 8\<rparr>"

text \<open>
  A caller that performs saves and loads in order on one cache, and collects what each
  load returned: the \<open>int\<close> and the parameters structure.
\<close>

datatype cache_op = Save br_ssl_session_parameters | Load br_ssl_session_parameters

fun run_ops ::
  "('r, 'h) primitives \<Rightarrow> 'h br_ssl_session_cache_lru \<Rightarrow> 'r br_ssl_server_context \<Rightarrow>
   cache_op list \<Rightarrow>
   ((int \<times> br_ssl_session_parameters) list \<times> 'h br_ssl_session_cache_lru \<times>
    'r br_ssl_server_context) outcome" where
  "run_ops P cc server_ctx [] = returns ([], cc, server_ctx)"
| "run_ops P cc server_ctx (Save params # ops) =
     and_then (lru_save P cc server_ctx params) (\<lambda>(cc, server_ctx).
     run_ops P cc server_ctx ops)"
| "run_ops P cc server_ctx (Load params # ops) =
     and_then (lru_load P cc server_ctx params) (\<lambda>(res, cc, server_ctx, params).
     and_then (run_ops P cc server_ctx ops) (\<lambda>(rs, cc, server_ctx).
     returns ((res, params) # rs, cc, server_ctx)))"

section \<open>Basic facts\<close>

lemma and_then_returns [simp]: "and_then (returns v) f = f v"
  by (simp add: and_then_def returns_def)

lemma and_then_lift_Inr [simp]: "and_then (lift (Inr v)) f = f v"
  by (simp add: and_then_def lift_def)

lemma and_then_lift_Inl [simp]: "and_then (lift (Inl e)) f = Some (Inl e)"
  by (simp add: and_then_def lift_def)

lemma and_then_None [simp]: "and_then None f = None"
  by (simp add: and_then_def)

lemma and_then_Some_Inr [simp]: "and_then (Some (Inr v)) f = f v"
  by (simp add: and_then_def)

lemma and_then_Some_Inl [simp]: "and_then (Some (Inl e)) f = Some (Inl e)"
  by (simp add: and_then_def)

lemma and_then_eq_Some:
  "and_then m f = Some r \<longleftrightarrow>
     (\<exists>e. m = Some (Inl e) \<and> r = Inl e) \<or> (\<exists>v. m = Some (Inr v) \<and> f v = Some r)"
  by (auto simp: and_then_def split: option.splits sum.splits)

lemma returns_eq [simp]: "returns v = Some r \<longleftrightarrow> r = Inr v"
  by (auto simp: returns_def)

lemma returns_inject [simp]: "returns a = returns b \<longleftrightarrow> a = b"
  by (simp add: returns_def)

lemma lift_eq [simp]: "lift x = Some r \<longleftrightarrow> r = x"
  by (auto simp: lift_def)

section \<open>Bytes of the slab\<close>

lemma length_overwrite [simp]:
  "a + length bs \<le> length st \<Longrightarrow> length (overwrite st a bs) = length st"
  by (simp add: overwrite_def)

lemma length_peek [simp]: "a + n \<le> length st \<Longrightarrow> length (peek st a n) = n"
  by (simp add: peek_def)

lemma nth_overwrite:
  "a + length bs \<le> length st \<Longrightarrow> i < length st \<Longrightarrow>
   overwrite st a bs ! i = (if a \<le> i \<and> i < a + length bs then bs ! (i - a) else st ! i)"
  by (auto simp: overwrite_def nth_append)

lemma nth_peek: "a + n \<le> length st \<Longrightarrow> i < n \<Longrightarrow> peek st a n ! i = st ! (a + i)"
  by (simp add: peek_def)

lemma peek_overwrite_same:
  "a + length bs \<le> length st \<Longrightarrow> n = length bs \<Longrightarrow> peek (overwrite st a bs) a n = bs"
  by (simp add: peek_def overwrite_def)

lemma peek_overwrite_other:
  assumes "a + length bs \<le> length st" "b + n \<le> a \<or> a + length bs \<le> b"
  shows "peek (overwrite st a bs) b n = peek st b n"
proof (cases "b + n \<le> length st")
  case True
  show ?thesis
  proof (rule nth_equalityI)
    show "length (peek (overwrite st a bs) b n) = length (peek st b n)"
      using assms True by simp
  next
    fix i assume "i < length (peek (overwrite st a bs) b n)"
    then have i: "i < n" using assms True by simp
    then show "peek (overwrite st a bs) b n ! i = peek st b n ! i"
      using assms True by (auto simp: nth_peek nth_overwrite)
  qed
next
  case False
  then have "a + length bs \<le> b" using assms by linarith
  then show ?thesis using assms
    by (simp add: peek_def overwrite_def)
qed

lemma peek_add: "peek st a (m + n) = peek st a m @ peek st (a + m) n"
  by (simp add: peek_def take_add add.commute)

lemma dec_enc32 [simp]: "br_dec32be (br_enc32be v) = v"
proof -
  have "push_bit 24 (ucast (ucast (drop_bit 24 v) :: byte)) OR push_bit 16 (ucast (ucast (drop_bit 16 v) :: byte))
        OR push_bit 8 (ucast (ucast (drop_bit 8 v) :: byte)) OR ucast (ucast v :: byte) = v"
  proof (rule bit_word_eqI)
    fix n assume n: "n < LENGTH(32)"
    consider "n < 8" | "8 \<le> n" "n < 16" | "16 \<le> n" "n < 24" | "24 \<le> n" by linarith
    then show "bit (push_bit 24 (ucast (ucast (drop_bit 24 v) :: byte)) OR push_bit 16 (ucast (ucast (drop_bit 16 v) :: byte))
        OR push_bit 8 (ucast (ucast (drop_bit 8 v) :: byte)) OR (ucast (ucast v :: byte) :: u32)) n = bit v n"
      using n by cases (auto simp add: bit_simps)
  qed
  then show ?thesis by (simp add: br_enc32be_def)
qed

lemma dec_enc16 [simp]: "br_dec16be (br_enc16be v) = v"
proof -
  have "push_bit 8 (ucast (ucast (drop_bit 8 v) :: byte)) OR ucast (ucast v :: byte) = v"
  proof (rule bit_word_eqI)
    fix n assume n: "n < LENGTH(16)"
    consider "n < 8" | "8 \<le> n" by linarith
    then show "bit (push_bit 8 (ucast (ucast (drop_bit 8 v) :: byte)) OR (ucast (ucast v :: byte) :: u16)) n = bit v n"
      using n by cases (auto simp add: bit_simps)
  qed
  then show ?thesis by (simp add: br_enc16be_def)
qed

lemma find_node_empty:
  "root cc = ADDR_NULL \<Longrightarrow> find_node cc idp = returns (ADDR_NULL, ADDR_NULL)"
  by (simp add: find_node_def find_node_loop.simps returns_def)

lemmas offs = SESSION_ID_LEN_def MASTER_SECRET_LEN_def SESSION_ID_OFF_def MASTER_SECRET_OFF_def
  VERSION_OFF_def CIPHER_SUITE_OFF_def LIST_PREV_OFF_def LIST_NEXT_OFF_def TREE_LEFT_OFF_def
  TREE_RIGHT_OFF_def LRU_ENTRY_LEN_def

lemma length_enc32 [simp]: "length (br_enc32be v) = 4"
  by (simp add: br_enc32be_def)

lemma length_enc16 [simp]: "length (br_enc16be v) = 2"
  by (simp add: br_enc16be_def)

lemma lru_save_init_fields [simp]:
  "store (fst (lru_save_init P cc sc)) = store cc"
  "store_len (fst (lru_save_init P cc sc)) = store_len cc"
  "store_ptr (fst (lru_save_init P cc sc)) = store_ptr cc"
  "head (fst (lru_save_init P cc sc)) = head cc"
  "tail (fst (lru_save_init P cc sc)) = tail cc"
  "root (fst (lru_save_init P cc sc)) = root cc"
  "init_done (fst (lru_save_init P cc sc)) = True"
  by (simp_all add: lru_save_init_def split: prod.splits)

section \<open>Fields of entries and the tree walks\<close>

lemma get32_ok: "a + 4 \<le> length (store cc) \<Longrightarrow> get32 cc a = Inr (fld cc a)"
  by (simp add: get32_def load_bytes_def fld_def)

lemma set32_ok: "a + 4 \<le> length (store cc) \<Longrightarrow> set32 cc a v = Inr (poke32 cc a v)"
  by (simp add: set32_def store_bytes_def poke32_def)

lemma poke32_fields [simp]:
  "store_len (poke32 cc a v) = store_len cc"
  "store_ptr (poke32 cc a v) = store_ptr cc"
  "index_key (poke32 cc a v) = index_key cc"
  "hash (poke32 cc a v) = hash cc"
  "init_done (poke32 cc a v) = init_done cc"
  "head (poke32 cc a v) = head cc"
  "tail (poke32 cc a v) = tail cc"
  "root (poke32 cc a v) = root cc"
  by (simp_all add: poke32_def)

lemma length_store_poke32 [simp]:
  "a + 4 \<le> length (store cc) \<Longrightarrow> length (store (poke32 cc a v)) = length (store cc)"
  by (simp add: poke32_def)

lemma slot_poke32 [simp]:
  "a + 4 \<le> length (store cc) \<Longrightarrow> slot (poke32 cc a v) x = slot cc x"
  by (simp add: slot_def)

lemma fld_poke32_same:
  "a + 4 \<le> length (store cc) \<Longrightarrow> fld (poke32 cc a v) a = v"
  by (simp add: fld_def poke32_def peek_overwrite_same)

lemma fld_poke32_other:
  "a + 4 \<le> length (store cc) \<Longrightarrow> b + 4 \<le> a \<or> a + 4 \<le> b \<Longrightarrow>
   fld (poke32 cc a v) b = fld cc b"
  by (simp add: fld_def poke32_def peek_overwrite_other)

lemma next_block:
  fixes a b :: nat
  assumes "a mod 100 = 0" "b mod 100 = 0" "a < b"
  shows "a + 100 \<le> b"
proof -
  obtain i j where ij: "a = 100 * i" "b = 100 * j"
    using assms(1,2) by (auto elim!: dvdE simp: mod_eq_0_iff_dvd)
  then have "i < j" using assms(3) by simp
  then have "Suc i \<le> j" by simp
  then have "100 * Suc i \<le> 100 * j" by (rule mult_le_mono2)
  then show ?thesis using ij by simp
qed

lemma blocks_apart:
  fixes a b :: nat
  assumes "a mod 100 = 0" "b mod 100 = 0" "a \<noteq> b" "p + m \<le> 100" "q + n \<le> 100"
  shows "b + q + n \<le> a + p \<or> a + p + m \<le> b + q"
proof (cases "a < b")
  case True
  from next_block[OF assms(1,2) True] assms(4) show ?thesis by linarith
next
  case False
  then have "b < a" using assms(3) by simp
  from next_block[OF assms(2,1) this] assms(5) show ?thesis by linarith
qed

lemma fld_poke32_field:
  assumes "slot cc w" "unat z mod 100 = 0" "o1 \<in> {84, 88, 92, 96}" "o2 \<in> {84, 88, 92, 96}"
  shows "fld (poke32 cc (unat w + o1) v) (unat z + o2) =
           (if z = w \<and> o2 = o1 then v else fld cc (unat z + o2))"
proof -
  have w: "unat w mod 100 = 0" "unat w + 100 \<le> length (store cc)"
    using assms(1) by (simp_all add: slot_def offs)
  have o1: "o1 + 4 \<le> 100" and o2: "o2 + 4 \<le> 100" using assms(3,4) by auto
  have bound: "unat w + o1 + 4 \<le> length (store cc)" using w o1 by linarith
  show ?thesis
  proof (cases "z = w")
    case True
    show ?thesis
    proof (cases "o2 = o1")
      case True
      with \<open>z = w\<close> show ?thesis using bound by (simp add: fld_poke32_same)
    next
      case False
      then have "o2 + 4 \<le> o1 \<or> o1 + 4 \<le> o2" using assms(3,4) by auto
      then have "unat z + o2 + 4 \<le> unat w + o1 \<or> unat w + o1 + 4 \<le> unat z + o2"
        using True by auto
      then have "fld (poke32 cc (unat w + o1) v) (unat z + o2) = fld cc (unat z + o2)"
        using bound by (intro fld_poke32_other) auto
      then show ?thesis using False by simp
    qed
  next
    case False
    then have "unat w \<noteq> unat z" by (auto simp: word_unat_eq_iff)
    from blocks_apart[OF w(1) assms(2) this o1 o2]
    have "unat z + o2 + 4 \<le> unat w + o1 \<or> unat w + o1 + 4 \<le> unat z + o2" .
    then have "fld (poke32 cc (unat w + o1) v) (unat z + o2) = fld cc (unat z + o2)"
      using bound by (intro fld_poke32_other) auto
    then show ?thesis using False by simp
  qed
qed

lemma null_numeral: "ADDR_NULL = 4294967295"
  by (simp add: ADDR_NULL_def)

lemma unat_null: "unat ADDR_NULL = 4294967295"
  by (simp add: null_numeral)

lemma below_not_null: "below n x \<Longrightarrow> x \<noteq> ADDR_NULL"
  by (auto simp: below_def unat_null offs)

lemma slot_not_null: "slot cc x \<Longrightarrow> x \<noteq> ADDR_NULL"
  by (auto simp: slot_def unat_null offs)

lemma below_slot:
  assumes "below n x" "n mod 100 = 0" "n \<le> length (store cc)"
  shows "slot cc x"
proof -
  have "unat x mod 100 = 0" "unat x < n" using assms(1) by (simp_all add: below_def offs)
  from next_block[OF this(1) assms(2) this(2)] this(1) assms(3)
  show ?thesis by (simp add: slot_def offs)
qed

lemma unat_slot_off:
  assumes "slot cc x" "length (store cc) < 2 ^ 32" "k \<le> 96"
  shows "unat (x + of_nat k) = unat x + k"
proof -
  have "unat x + 100 \<le> length (store cc)" using assms(1) by (simp add: slot_def offs)
  then have lt: "unat x + k < 2 ^ 32" using assms by linarith
  show ?thesis
    using unat_add_lem[of x "of_nat k :: u32"] lt assms(3) by (simp add: unat_of_nat)
qed

lemma get_left_slot: "slot cc x \<Longrightarrow> get_left cc x = Inr (left_of cc x)"
  by (simp add: get_left_def left_of_def slot_def offs get32_ok)

lemma get_right_slot: "slot cc x \<Longrightarrow> get_right cc x = Inr (right_of cc x)"
  by (simp add: get_right_def right_of_def slot_def offs get32_ok)

lemma get_prev_slot: "slot cc x \<Longrightarrow> get_prev cc x = Inr (prev_of cc x)"
  by (simp add: get_prev_def prev_of_def slot_def offs get32_ok)

lemma get_next_slot: "slot cc x \<Longrightarrow> get_next cc x = Inr (next_of cc x)"
  by (simp add: get_next_def next_of_def slot_def offs get32_ok)

lemma load_key_slot:
  "slot cc x \<Longrightarrow> load_bytes (store cc) (unat x + SESSION_ID_OFF) SESSION_ID_LEN = Inr (key_of cc x)"
  by (simp add: load_bytes_def key_of_def slot_def offs)

lemma link_addr_left: "below n x \<Longrightarrow> link_addr n (x + of_nat TREE_LEFT_OFF)"
  by (auto simp: link_addr_def)

lemma link_addr_right: "below n x \<Longrightarrow> link_addr n (x + of_nat TREE_RIGHT_OFF)"
  by (auto simp: link_addr_def)

lemma find_node_loop_induct [consumes 1, case_names step]:
  fixes cc :: "'h br_ssl_session_cache_lru"
  assumes run: "find_node_loop cc idp x y = Some r"
    and step: "\<And>f x y r.
      (\<And>x' y' r'. f x' y' = Some r' \<Longrightarrow> P x' y' r') \<Longrightarrow>
      (if x \<noteq> ADDR_NULL then
        (case idp of
           Inl e \<Rightarrow> Some (Inl e)
         | Inr idb \<Rightarrow>
            (case load_bytes (store cc) (unat x + SESSION_ID_OFF) SESSION_ID_LEN of
               Inl e \<Rightarrow> Some (Inl e)
             | Inr k \<Rightarrow>
                (if memcmp (take SESSION_ID_LEN idb) k < 0 then
                   (case get_left cc x of
                      Inl e \<Rightarrow> Some (Inl e)
                    | Inr l \<Rightarrow> f l (x + of_nat TREE_LEFT_OFF))
                 else if memcmp (take SESSION_ID_LEN idb) k = 0 then
                   Some (Inr (x, y))
                 else
                   (case get_right cc x of
                      Inl e \<Rightarrow> Some (Inl e)
                    | Inr r \<Rightarrow> f r (x + of_nat TREE_RIGHT_OFF)))))
      else Some (Inr (ADDR_NULL, y))) = Some r \<Longrightarrow> P x y r"
  shows "P x y r"
proof -
  have "c = cc \<longrightarrow> i = idp \<longrightarrow> P x y r" if "find_node_loop c i x y = Some r"
    for c :: "'h br_ssl_session_cache_lru" and i
    using that
    apply (rule find_node_loop.raw_induct[where xa = "(((c, i), x), y)" and ya = r
        and P = "\<lambda>c i x y r. c = cc \<longrightarrow> i = idp \<longrightarrow> P x y r", simplified, rotated 1])
    subgoal for f c' i' x' y' r'
      apply (intro impI)
      apply hypsubst
      apply (rule step[where f = "f cc idp"])
       apply blast
      apply assumption
      done
    done
  then show ?thesis using run by blast
qed

lemma find_replacement_rightmost_induct [consumes 1, case_names step]:
  fixes cc :: "'h br_ssl_session_cache_lru"
  assumes run: "find_replacement_rightmost cc y1 y2 = Some r"
    and step: "\<And>f y1 y2 r.
      (\<And>y1' y2' r'. f y1' y2' = Some r' \<Longrightarrow> P y1' y2' r') \<Longrightarrow>
      (case get_right cc y1 of
        Inl e \<Rightarrow> Some (Inl e)
      | Inr z \<Rightarrow>
         (if z = ADDR_NULL then Some (Inr (y1, y2))
          else f z (y1 + of_nat TREE_RIGHT_OFF))) = Some r \<Longrightarrow> P y1 y2 r"
  shows "P y1 y2 r"
proof -
  have "c = cc \<longrightarrow> P y1 y2 r" if "find_replacement_rightmost c y1 y2 = Some r"
    for c :: "'h br_ssl_session_cache_lru"
    using that
    apply (rule find_replacement_rightmost.raw_induct[
        where P = "\<lambda>c y1 y2 r. c = cc \<longrightarrow> P y1 y2 r", rotated 1])
    subgoal for f c' a b r'
      apply (intro impI)
      apply hypsubst
      apply (rule step[where f = "f cc"])
       apply blast
      apply assumption
      done
    done
  then show ?thesis using run by blast
qed

lemma find_replacement_leftmost_induct [consumes 1, case_names step]:
  fixes cc :: "'h br_ssl_session_cache_lru"
  assumes run: "find_replacement_leftmost cc y1 y2 = Some r"
    and step: "\<And>f y1 y2 r.
      (\<And>y1' y2' r'. f y1' y2' = Some r' \<Longrightarrow> P y1' y2' r') \<Longrightarrow>
      (case get_left cc y1 of
        Inl e \<Rightarrow> Some (Inl e)
      | Inr z \<Rightarrow>
         (if z = ADDR_NULL then Some (Inr (y1, y2))
          else f z (y1 + of_nat TREE_LEFT_OFF))) = Some r \<Longrightarrow> P y1 y2 r"
  shows "P y1 y2 r"
proof -
  have "c = cc \<longrightarrow> P y1 y2 r" if "find_replacement_leftmost c y1 y2 = Some r"
    for c :: "'h br_ssl_session_cache_lru"
    using that
    apply (rule find_replacement_leftmost.raw_induct[
        where P = "\<lambda>c y1 y2 r. c = cc \<longrightarrow> P y1 y2 r", rotated 1])
    subgoal for f c' a b r'
      apply (intro impI)
      apply hypsubst
      apply (rule step[where f = "f cc"])
       apply blast
      apply assumption
      done
    done
  then show ?thesis using run by blast
qed

lemma find_node_loop_ok:
  assumes "find_node_loop cc idp x y = Some r"
    and "tree_ok cc n" "n mod 100 = 0" "n \<le> length (store cc)"
    and "null_or_below n x" "link_addr n y" "idp = Inr idb"
  shows "\<exists>f al. r = Inr (f, al) \<and> null_or_below n f \<and> link_addr n al \<and>
           (f \<noteq> ADDR_NULL \<longrightarrow> memcmp (take SESSION_ID_LEN idb) (key_of cc f) = 0)"
  using assms(1,5,6)
proof (induction rule: find_node_loop_induct)
  case (step f x y r)
  show ?case
  proof (cases "x = ADDR_NULL")
    case True
    then show ?thesis using step.prems step.hyps by (auto simp: null_or_below_def)
  next
    case False
    then have bx: "below n x" using step.prems by (simp add: null_or_below_def)
    then have sx: "slot cc x" using assms by (auto intro: below_slot)
    have l: "null_or_below n (left_of cc x)" and r: "null_or_below n (right_of cc x)"
      using bx assms(2) by (auto simp: tree_ok_def)
    consider (lt) "memcmp (take SESSION_ID_LEN idb) (key_of cc x) < 0"
      | (eq) "memcmp (take SESSION_ID_LEN idb) (key_of cc x) = 0"
      | (gt) "memcmp (take SESSION_ID_LEN idb) (key_of cc x) > 0" by linarith
    then show ?thesis
    proof cases
      case lt
      then have "f (left_of cc x) (x + of_nat TREE_LEFT_OFF) = Some r"
        using step.hyps False assms(7) sx by (simp add: load_key_slot get_left_slot)
      from step.IH[OF this l] bx show ?thesis
        by (auto simp: link_addr_left)
    next
      case eq
      then show ?thesis using step.hyps False assms(7) step.prems sx bx
        by (auto simp add: load_key_slot null_or_below_def)
    next
      case gt
      then have "f (right_of cc x) (x + of_nat TREE_RIGHT_OFF) = Some r"
        using step.hyps False assms(7) sx by (simp add: load_key_slot get_right_slot)
      from step.IH[OF this r] bx show ?thesis
        by (auto simp: link_addr_right)
    qed
  qed
qed

lemma find_node_ok:
  assumes "find_node cc (Inr idb) = Some r"
    and "tree_ok cc n" "n mod 100 = 0" "n \<le> length (store cc)"
  shows "\<exists>f al. r = Inr (f, al) \<and> null_or_below n f \<and> link_addr n al \<and>
           (f \<noteq> ADDR_NULL \<longrightarrow> memcmp (take SESSION_ID_LEN idb) (key_of cc f) = 0)"
  using find_node_loop_ok[OF assms(1)[unfolded find_node_def] assms(2-4), of idb] assms(2)
  by (auto simp: tree_ok_def link_addr_def)

lemma find_replacement_rightmost_ok:
  assumes "find_replacement_rightmost cc y1 y2 = Some r"
    and "tree_ok cc n" "n mod 100 = 0" "n \<le> length (store cc)"
    and "below n y1" "link_addr n y2"
  shows "\<exists>y al. r = Inr (y, al) \<and> below n y \<and> link_addr n al"
  using assms(1,5,6)
proof (induction rule: find_replacement_rightmost_induct)
  case (step f y1 y2 r)
  have sx: "slot cc y1" using step.prems assms by (auto intro: below_slot)
  have r: "null_or_below n (right_of cc y1)"
    using step.prems assms(2) by (auto simp: tree_ok_def)
  show ?case
  proof (cases "right_of cc y1 = ADDR_NULL")
    case True
    then show ?thesis using step.hyps step.prems sx by (auto simp: get_right_slot)
  next
    case False
    then have "f (right_of cc y1) (y1 + of_nat TREE_RIGHT_OFF) = Some r"
      using step.hyps sx by (simp add: get_right_slot)
    moreover have "below n (right_of cc y1)" using r False by (simp add: null_or_below_def)
    ultimately show ?thesis using step.IH step.prems by (auto simp: link_addr_right)
  qed
qed

lemma find_replacement_leftmost_ok:
  assumes "find_replacement_leftmost cc y1 y2 = Some r"
    and "tree_ok cc n" "n mod 100 = 0" "n \<le> length (store cc)"
    and "below n y1" "link_addr n y2"
  shows "\<exists>y al. r = Inr (y, al) \<and> below n y \<and> link_addr n al"
  using assms(1,5,6)
proof (induction rule: find_replacement_leftmost_induct)
  case (step f y1 y2 r)
  have sx: "slot cc y1" using step.prems assms by (auto intro: below_slot)
  have r: "null_or_below n (left_of cc y1)"
    using step.prems assms(2) by (auto simp: tree_ok_def)
  show ?case
  proof (cases "left_of cc y1 = ADDR_NULL")
    case True
    then show ?thesis using step.hyps step.prems sx by (auto simp: get_left_slot)
  next
    case False
    then have "f (left_of cc y1) (y1 + of_nat TREE_LEFT_OFF) = Some r"
      using step.hyps sx by (simp add: get_left_slot)
    moreover have "below n (left_of cc y1)" using r False by (simp add: null_or_below_def)
    ultimately show ?thesis using step.IH step.prems by (auto simp: link_addr_left)
  qed
qed

lemma find_replacement_node_ok:
  assumes "find_replacement_node cc x = Some r"
    and "tree_ok cc n" "n mod 100 = 0" "n \<le> length (store cc)" "below n x"
  shows "\<exists>y al. r = Inr (y, al) \<and> null_or_below n y \<and> link_addr n al"
proof -
  have sx: "slot cc x" using assms by (auto intro: below_slot)
  have l: "null_or_below n (left_of cc x)" and rr: "null_or_below n (right_of cc x)"
    using assms(2,5) by (auto simp: tree_ok_def)
  show ?thesis
  proof (cases "left_of cc x = ADDR_NULL")
    case False
    then have "find_replacement_rightmost cc (left_of cc x) (x + of_nat TREE_LEFT_OFF) = Some r"
      using assms(1) sx by (simp add: find_replacement_node_def get_left_slot)
    from find_replacement_rightmost_ok[OF this assms(2-4)] l False assms(5)
    show ?thesis by (auto simp: null_or_below_def link_addr_left)
  next
    case True
    show ?thesis
    proof (cases "right_of cc x = ADDR_NULL")
      case False
      then have "find_replacement_leftmost cc (right_of cc x) (x + of_nat TREE_RIGHT_OFF) = Some r"
        using assms(1) sx True by (simp add: find_replacement_node_def get_left_slot get_right_slot)
      from find_replacement_leftmost_ok[OF this assms(2-4)] rr False assms(5)
      show ?thesis by (auto simp: null_or_below_def link_addr_right)
    next
      case False2: True
      then show ?thesis using assms(1) sx True
        by (auto simp add: find_replacement_node_def get_left_slot get_right_slot
            null_or_below_def link_addr_def)
    qed
  qed
qed

section \<open>Doubly-linked lists\<close>

lemma dlist_coreD:
  assumes "dlist_core N E h t prv nxt" "z \<in> E"
  shows "prv z = N \<or> prv z \<in> E" "nxt z = N \<or> nxt z \<in> E"
    "prv z = N \<longleftrightarrow> z = h" "nxt z = N \<longleftrightarrow> z = t"
    "nxt z \<noteq> N \<Longrightarrow> prv (nxt z) = z" "prv z \<noteq> N \<Longrightarrow> nxt (prv z) = z"
    "z \<noteq> N"
proof -
  have a: "N \<notin> E"
    using assms by (auto simp only: dlist_core_def)
  have b: "(prv z = N \<or> prv z \<in> E) \<and> (nxt z = N \<or> nxt z \<in> E) \<and>
             (prv z = N \<longleftrightarrow> z = h) \<and> (nxt z = N \<longleftrightarrow> z = t) \<and>
             (nxt z \<noteq> N \<longrightarrow> prv (nxt z) = z) \<and> (prv z \<noteq> N \<longrightarrow> nxt (prv z) = z)"
    using assms unfolding dlist_core_def by (elim conjE) (erule bspec, assumption)
  show "prv z = N \<or> prv z \<in> E" "nxt z = N \<or> nxt z \<in> E"
    "prv z = N \<longleftrightarrow> z = h" "nxt z = N \<longleftrightarrow> z = t"
    using b by blast+
  show "nxt z \<noteq> N \<Longrightarrow> prv (nxt z) = z" "prv z \<noteq> N \<Longrightarrow> nxt (prv z) = z"
    using b by blast+
  show "z \<noteq> N" using a assms(2) by auto
qed

lemma dlist_core_ends:
  assumes "dlist_core N E h t prv nxt"
  shows "N \<notin> E" "h = N \<or> h \<in> E" "t = N \<or> t \<in> E" "h = N \<longleftrightarrow> t = N"
  using assms unfolding dlist_core_def by blast+

lemma dlist_coreI:
  assumes "N \<notin> E" "h = N \<or> h \<in> E" "t = N \<or> t \<in> E" "h = N \<longleftrightarrow> t = N"
    "\<And>z. z \<in> E \<Longrightarrow>
      (prv z = N \<or> prv z \<in> E) \<and> (nxt z = N \<or> nxt z \<in> E) \<and>
      (prv z = N \<longleftrightarrow> z = h) \<and> (nxt z = N \<longleftrightarrow> z = t) \<and>
      (nxt z \<noteq> N \<longrightarrow> prv (nxt z) = z) \<and> (prv z \<noteq> N \<longrightarrow> nxt (prv z) = z)"
  shows "dlist_core N E h t prv nxt"
  unfolding dlist_core_def
  apply (rule conjI, rule assms(1))
  apply (rule conjI, rule assms(2))
  apply (rule conjI, rule assms(3))
  apply (rule conjI, rule assms(4))
  apply (rule ballI, erule assms(5))
  done

lemma dlist_core_cong:
  assumes inv: "dlist_core N E h t prv nxt"
    and eq: "\<And>z. z \<in> E \<Longrightarrow> prv' z = prv z \<and> nxt' z = nxt z"
  shows "dlist_core N E h t prv' nxt'"
proof (rule dlist_coreI)
  show "N \<notin> E" "h = N \<or> h \<in> E" "t = N \<or> t \<in> E" "h = N \<longleftrightarrow> t = N"
    using dlist_core_ends[OF inv] by blast+
next
  fix z assume z: "z \<in> E"
  note D = dlist_coreD[OF inv z]
  have 5: "prv' (nxt' z) = z" if "nxt' z \<noteq> N"
  proof -
    have "nxt z \<noteq> N" using that eq[OF z] by simp
    then have "nxt z \<in> E" "prv (nxt z) = z" using D(2,5) by auto
    then show ?thesis using eq[OF z] eq[of "nxt z"] by simp
  qed
  have 6: "nxt' (prv' z) = z" if "prv' z \<noteq> N"
  proof -
    have "prv z \<noteq> N" using that eq[OF z] by simp
    then have "prv z \<in> E" "nxt (prv z) = z" using D(1,6) by auto
    then show ?thesis using eq[OF z] eq[of "prv z"] by simp
  qed
  show "(prv' z = N \<or> prv' z \<in> E) \<and> (nxt' z = N \<or> nxt' z \<in> E) \<and>
      (prv' z = N \<longleftrightarrow> z = h) \<and> (nxt' z = N \<longleftrightarrow> z = t) \<and>
      (nxt' z \<noteq> N \<longrightarrow> prv' (nxt' z) = z) \<and> (prv' z \<noteq> N \<longrightarrow> nxt' (prv' z) = z)"
    using D(1-4) eq[OF z] 5 6 by simp
qed

lemma dlist_inv_cong:
  assumes "dlist_inv N E h t prv nxt"
    and "\<And>z. z \<in> E \<Longrightarrow> prv' z = prv z \<and> nxt' z = nxt z"
  shows "dlist_inv N E h t prv' nxt'"
  using assms dlist_core_cong[of N E h t prv nxt prv' nxt'] by (simp add: dlist_inv_def)

lemma dlist_move_to_head:
  assumes inv: "dlist_inv N E h t prv nxt" and x: "x \<in> E" "x \<noteq> h"
  shows "dlist_inv N E x (if nxt x = N then prv x else t)
           (((if nxt x = N then prv else prv(nxt x := prv x))(h := x))(x := N))
           ((nxt(prv x := nxt x))(x := h))"
proof -
  define p where "p = prv x"
  define n where "n = nxt x"
  define prv' where "prv' = (((if nxt x = N then prv else prv(nxt x := prv x))(h := x))(x := N))"
  define nxt' where "nxt' = ((nxt(prv x := nxt x))(x := h))"
  have core: "dlist_core N E h t prv nxt" and hN: "h \<noteq> N"
    using inv x(1) by (auto simp: dlist_inv_def)
  note D = dlist_coreD[OF core]
  note ends = dlist_core_ends[OF core]
  have xN: "x \<noteq> N" using D(7)[OF x(1)] .
  have hE: "h \<in> E" and tN: "t \<noteq> N" and tE: "t \<in> E" using ends hN by auto
  have pN: "p \<noteq> N" using D(3)[OF x(1)] x(2) by (simp add: p_def)
  have pE: "p \<in> E" using D(1)[OF x(1)] pN by (simp add: p_def)
  have np: "nxt p = x" using D(6)[OF x(1)] pN by (simp add: p_def)
  have ph: "prv h = N" using D(3)[OF hE] by simp
  have nE: "n \<noteq> N \<Longrightarrow> n \<in> E" using D(2)[OF x(1)] by (auto simp: n_def)
  have pn: "n \<noteq> N \<Longrightarrow> prv n = x" using D(5)[OF x(1)] by (simp add: n_def)
  have nh: "n \<noteq> h" using pn ph xN hN by auto
  have nt: "n = N \<longleftrightarrow> x = t" using D(4)[OF x(1)] by (simp add: n_def)
  have nxt': "nxt' z = (if z = x then h else if z = p then n else nxt z)" for z
    by (simp add: nxt'_def p_def n_def)
  have prv': "prv' z = (if z = x then N else if z = h then x else if n \<noteq> N \<and> z = n then p else prv z)" for z
    by (auto simp add: prv'_def p_def n_def)
  have "dlist_core N E x (if n = N then p else t) prv' nxt'"
  proof (rule dlist_coreI)
    show "N \<notin> E" using ends by simp
    show "x = N \<or> x \<in> E" using x by simp
    show "(if n = N then p else t) = N \<or> (if n = N then p else t) \<in> E" using pE tE by simp
    show "x = N \<longleftrightarrow> (if n = N then p else t) = N" using xN pN tN by simp
  next
    fix z assume z: "z \<in> E"
    note Dz = D(1-6)[OF z]
    have 1: "prv' z = N \<or> prv' z \<in> E" using Dz(1) x pE by (simp add: prv')
    have 2: "nxt' z = N \<or> nxt' z \<in> E" using Dz(2) hE nE by (auto simp add: nxt')
    have 3: "prv' z = N \<longleftrightarrow> z = x"
      by (metis prv' Dz(3) pN xN hE)
    have 4: "nxt' z = N \<longleftrightarrow> z = (if n = N then p else t)"
      by (metis nxt' Dz(4) x(2) xN hN nt np)
    have 5: "prv' (nxt' z) = z" if nz: "nxt' z \<noteq> N"
    proof -
      consider (x) "z = x" | (p) "z \<noteq> x" "z = p" | (o) "z \<noteq> x" "z \<noteq> p" by blast
      then show ?thesis
      proof cases
        case x
        then show ?thesis using \<open>x \<noteq> h\<close> by (simp add: nxt' prv')
      next
        case p
        have "n \<noteq> N" using nz p by (simp add: nxt')
        moreover have "n \<noteq> x"
          by (metis p(2) p(1) pn calculation p_def)
        ultimately show ?thesis using p nh by (simp add: nxt' prv')
      next
        case o
        then have m: "nxt z \<noteq> N" "prv (nxt z) = z" using nz Dz(5) by (simp_all add: nxt')
        have "nxt z \<noteq> x" by (metis m(2) o(2) p_def)
        moreover have "nxt z \<noteq> h" using m ph D(7)[OF z] by auto
        moreover have "n \<noteq> N \<longrightarrow> nxt z \<noteq> n" using m pn o by auto
        ultimately show ?thesis using o m by (auto simp add: nxt' prv')
      qed
    qed
    have 6: "nxt' (prv' z) = z" if pz: "prv' z \<noteq> N"
    proof -
      consider (x) "z = x" | (h) "z \<noteq> x" "z = h" | (n) "z \<noteq> x" "z \<noteq> h" "n \<noteq> N" "z = n"
        | (o) "z \<noteq> x" "z \<noteq> h" "\<not> (n \<noteq> N \<and> z = n)" by blast
      then show ?thesis
      proof cases
        case x
        then show ?thesis using pz by (simp add: prv')
      next
        case h
        then show ?thesis by (simp add: nxt' prv')
      next
        case n
        have "p \<noteq> x"
          by (metis n(4) n(1) p_def n_def D(6) D(3) x(2) x(1))
        then show ?thesis using n by (simp add: nxt' prv')
      next
        case o
        then have q: "prv z \<noteq> N" "nxt (prv z) = z" using pz Dz(6) by (auto simp add: prv')
        have "prv z \<noteq> x" by (metis o(3) q(2) n_def D(7) z)
        moreover have "prv z \<noteq> p" by (metis q(2) np o(1))
        ultimately show ?thesis using o q by (auto simp add: nxt' prv')
      qed
    qed
    show "(prv' z = N \<or> prv' z \<in> E) \<and> (nxt' z = N \<or> nxt' z \<in> E) \<and>
      (prv' z = N \<longleftrightarrow> z = x) \<and> (nxt' z = N \<longleftrightarrow> z = (if n = N then p else t)) \<and>
      (nxt' z \<noteq> N \<longrightarrow> prv' (nxt' z) = z) \<and> (prv' z \<noteq> N \<longrightarrow> nxt' (prv' z) = z)"
      using 1 2 3 4 5 6 by blast
  qed
  then have "dlist_inv N E x (if n = N then p else t) prv' nxt'"
    using xN by (simp add: dlist_inv_def)
  then show ?thesis unfolding prv'_def nxt'_def p_def n_def .
qed

lemma dlist_insert_new:
  assumes core: "dlist_core N E h t prv nxt" and x: "x \<notin> E" "x \<noteq> N"
  shows "dlist_inv N (insert x E) x (if h = N then x else t)
           ((if h = N then prv else prv(h := x))(x := N))
           (nxt(x := h))"
proof -
  define prv' where "prv' = ((if h = N then prv else prv(h := x))(x := N))"
  define nxt' where "nxt' = (nxt(x := h))"
  note D = dlist_coreD[OF core]
  note ends = dlist_core_ends[OF core]
  have hx: "h \<noteq> x" and tx: "t \<noteq> x" using ends x by auto
  have nxt': "nxt' z = (if z = x then h else nxt z)" for z
    by (simp add: nxt'_def)
  have prv': "prv' z = (if z = x then N else if h \<noteq> N \<and> z = h then x else prv z)" for z
    by (auto simp add: prv'_def)
  have "dlist_core N (insert x E) x (if h = N then x else t) prv' nxt'"
  proof (rule dlist_coreI)
    show "N \<notin> insert x E" using ends x by simp
    show "x = N \<or> x \<in> insert x E" by simp
    show "(if h = N then x else t) = N \<or> (if h = N then x else t) \<in> insert x E"
      using ends by auto
    show "x = N \<longleftrightarrow> (if h = N then x else t) = N" using x ends by auto
  next
    fix z assume z: "z \<in> insert x E"
    consider (new) "z = x" | (old) "z \<in> E" "z \<noteq> x" using z x by auto
    then show "(prv' z = N \<or> prv' z \<in> insert x E) \<and> (nxt' z = N \<or> nxt' z \<in> insert x E) \<and>
      (prv' z = N \<longleftrightarrow> z = x) \<and> (nxt' z = N \<longleftrightarrow> z = (if h = N then x else t)) \<and>
      (nxt' z \<noteq> N \<longrightarrow> prv' (nxt' z) = z) \<and> (prv' z \<noteq> N \<longrightarrow> nxt' (prv' z) = z)"
    proof cases
      case new
      then show ?thesis using ends hx tx by (auto simp: prv' nxt')
    next
      case old
      note Dz = D(1-6)[OF old(1)]
      have zN: "z \<noteq> N" using D(7)[OF old(1)] .
      have ph: "h \<noteq> N \<Longrightarrow> prv h = N" using D(3)[of h] ends by auto
      have 1: "prv' z = N \<or> prv' z \<in> insert x E" using Dz(1) by (auto simp add: prv')
      have 2: "nxt' z = N \<or> nxt' z \<in> insert x E" using Dz(2) old by (auto simp add: nxt')
      have 3: "prv' z = N \<longleftrightarrow> z = x" using Dz(3) old x zN by (auto simp add: prv')
      have 4: "nxt' z = N \<longleftrightarrow> z = (if h = N then x else t)"
        using Dz(4) old ends zN by (auto simp add: nxt')
      have 5: "prv' (nxt' z) = z" if nz: "nxt' z \<noteq> N"
      proof -
        have m: "nxt z \<noteq> N" "prv (nxt z) = z" using nz old Dz(5) by (simp_all add: nxt')
        then have "nxt z \<in> E" using Dz(2) by simp
        then have "nxt z \<noteq> x" using x by auto
        moreover have "h \<noteq> N \<longrightarrow> nxt z \<noteq> h" using m ph zN by auto
        ultimately show ?thesis using old m by (auto simp add: nxt' prv')
      qed
      have 6: "nxt' (prv' z) = z" if pz: "prv' z \<noteq> N"
      proof (cases "h \<noteq> N \<and> z = h")
        case True
        then show ?thesis using hx by (simp add: nxt' prv')
      next
        case False
        then have q: "prv z \<noteq> N" "nxt (prv z) = z" using Dz(3,6) pz old by (auto simp: prv')
        then have "prv z \<in> E" using Dz(1) by simp
        then have "prv z \<noteq> x" using x by auto
        then show ?thesis using False old q by (auto simp add: nxt' prv')
      qed
      show ?thesis using 1 2 3 4 5 6 by blast
    qed
  qed
  then have "dlist_inv N (insert x E) x (if h = N then x else t) prv' nxt'"
    using x by (simp add: dlist_inv_def)
  then show ?thesis unfolding prv'_def nxt'_def .
qed

lemma dlist_evict_tail:
  assumes inv: "dlist_inv N E h t prv nxt" and ne: "E \<noteq> {}"
  shows "dlist_core N (E - {t}) (if prv t = N then N else h) (prv t) prv
           (if prv t = N then nxt else nxt(prv t := N))"
proof -
  define p where "p = prv t"
  define nxt' where "nxt' = (if prv t = N then nxt else nxt(prv t := N))"
  have core: "dlist_core N E h t prv nxt" and hN: "h \<noteq> N"
    using inv ne by (auto simp: dlist_inv_def)
  note D = dlist_coreD[OF core]
  note ends = dlist_core_ends[OF core]
  have hE: "h \<in> E" and tN: "t \<noteq> N" and tE: "t \<in> E" using ends hN by auto
  have nt: "nxt t = N" using D(4)[OF tE] by simp
  have pt: "p \<noteq> t" using D(6)[OF tE] nt tN by (auto simp: p_def)
  have pE: "p \<noteq> N \<Longrightarrow> p \<in> E" using D(1)[OF tE] by (auto simp: p_def)
  have np: "p \<noteq> N \<Longrightarrow> nxt p = t" using D(6)[OF tE] by (simp add: p_def)
  have ph: "p = N \<longleftrightarrow> t = h" using D(3)[OF tE] by (simp add: p_def)
  have nxt': "nxt' z = (if p \<noteq> N \<and> z = p then N else nxt z)" for z
    by (auto simp add: nxt'_def p_def)
  have "dlist_core N (E - {t}) (if p = N then N else h) p prv nxt'"
  proof (rule dlist_coreI)
    show "N \<notin> E - {t}" using ends by simp
    show "(if p = N then N else h) = N \<or> (if p = N then N else h) \<in> E - {t}"
      using hE ph by auto
    show "p = N \<or> p \<in> E - {t}" using pE pt by auto
    show "(if p = N then N else h) = N \<longleftrightarrow> p = N" using hN by simp
  next
    fix z assume z: "z \<in> E - {t}"
    then have zE: "z \<in> E" and zt: "z \<noteq> t" by auto
    note Dz = D(1-6)[OF zE]
    have zN: "z \<noteq> N" using D(7)[OF zE] .
    have nz: "nxt z \<noteq> N" using Dz(4) zt by simp
    have 1: "prv z = N \<or> prv z \<in> E - {t}"
    proof -
      have "prv z \<noteq> t" using Dz(6) nt zN tN by auto
      then show ?thesis using Dz(1) by auto
    qed
    have 2: "nxt' z = N \<or> nxt' z \<in> E - {t}"
    proof (cases "z = p")
      case True
      then show ?thesis using zN by (simp add: nxt')
    next
      case False
      then have "nxt z \<noteq> t" using Dz(5) nz by (auto simp: p_def)
      then show ?thesis using Dz(2) False by (auto simp add: nxt')
    qed
    have 3: "prv z = N \<longleftrightarrow> z = (if p = N then N else h)"
      using Dz(3) ph zt zN by auto
    have 4: "nxt' z = N \<longleftrightarrow> z = p" using nz zN by (auto simp add: nxt')
    have 5: "prv (nxt' z) = z" if "nxt' z \<noteq> N"
      using that Dz(5) nz by (auto simp add: nxt' split: if_splits)
    have 6: "nxt' (prv z) = z" if q: "prv z \<noteq> N"
    proof -
      have "nxt (prv z) = z" using Dz(6) q by simp
      moreover have "p \<noteq> N \<longrightarrow> prv z \<noteq> p" using np calculation zt by auto
      ultimately show ?thesis by (auto simp add: nxt')
    qed
    show "(prv z = N \<or> prv z \<in> E - {t}) \<and> (nxt' z = N \<or> nxt' z \<in> E - {t}) \<and>
      (prv z = N \<longleftrightarrow> z = (if p = N then N else h)) \<and> (nxt' z = N \<longleftrightarrow> z = p) \<and>
      (nxt' z \<noteq> N \<longrightarrow> prv (nxt' z) = z) \<and> (prv z \<noteq> N \<longrightarrow> nxt' (prv z) = z)"
      using 1 2 3 4 5 6 by blast
  qed
  then show ?thesis unfolding nxt'_def p_def .
qed

lemma dlist_inv_core: "dlist_inv N E h t prv nxt \<Longrightarrow> dlist_core N E h t prv nxt"
  by (simp add: dlist_inv_def)

section \<open>The link fields after a write\<close>

lemma fld_update [simp]:
  "fld (store_len_update f1 cc) a = fld cc a"
  "fld (store_ptr_update f2 cc) a = fld cc a"
  "fld (index_key_update f3 cc) a = fld cc a"
  "fld (hash_update f4 cc) a = fld cc a"
  "fld (init_done_update f5 cc) a = fld cc a"
  "fld (head_update f6 cc) a = fld cc a"
  "fld (tail_update f7 cc) a = fld cc a"
  "fld (root_update f8 cc) a = fld cc a"
  by (simp_all add: fld_def)

lemma prev_of_update [simp]:
  "prev_of (store_len_update f1 cc) = prev_of cc"
  "prev_of (store_ptr_update f2 cc) = prev_of cc"
  "prev_of (index_key_update f3 cc) = prev_of cc"
  "prev_of (hash_update f4 cc) = prev_of cc"
  "prev_of (init_done_update f5 cc) = prev_of cc"
  "prev_of (head_update f6 cc) = prev_of cc"
  "prev_of (tail_update f7 cc) = prev_of cc"
  "prev_of (root_update f8 cc) = prev_of cc"
  by (simp_all add: prev_of_def fun_eq_iff)

lemma next_of_update [simp]:
  "next_of (store_len_update f1 cc) = next_of cc"
  "next_of (store_ptr_update f2 cc) = next_of cc"
  "next_of (index_key_update f3 cc) = next_of cc"
  "next_of (hash_update f4 cc) = next_of cc"
  "next_of (init_done_update f5 cc) = next_of cc"
  "next_of (head_update f6 cc) = next_of cc"
  "next_of (tail_update f7 cc) = next_of cc"
  "next_of (root_update f8 cc) = next_of cc"
  by (simp_all add: next_of_def fun_eq_iff)

lemma left_of_update [simp]:
  "left_of (store_len_update f1 cc) = left_of cc"
  "left_of (store_ptr_update f2 cc) = left_of cc"
  "left_of (index_key_update f3 cc) = left_of cc"
  "left_of (hash_update f4 cc) = left_of cc"
  "left_of (init_done_update f5 cc) = left_of cc"
  "left_of (head_update f6 cc) = left_of cc"
  "left_of (tail_update f7 cc) = left_of cc"
  "left_of (root_update f8 cc) = left_of cc"
  by (simp_all add: left_of_def fun_eq_iff)

lemma right_of_update [simp]:
  "right_of (store_len_update f1 cc) = right_of cc"
  "right_of (store_ptr_update f2 cc) = right_of cc"
  "right_of (index_key_update f3 cc) = right_of cc"
  "right_of (hash_update f4 cc) = right_of cc"
  "right_of (init_done_update f5 cc) = right_of cc"
  "right_of (head_update f6 cc) = right_of cc"
  "right_of (tail_update f7 cc) = right_of cc"
  "right_of (root_update f8 cc) = right_of cc"
  by (simp_all add: right_of_def fun_eq_iff)

lemma key_of_update [simp]:
  "key_of (store_len_update f1 cc) = key_of cc"
  "key_of (store_ptr_update f2 cc) = key_of cc"
  "key_of (index_key_update f3 cc) = key_of cc"
  "key_of (hash_update f4 cc) = key_of cc"
  "key_of (init_done_update f5 cc) = key_of cc"
  "key_of (head_update f6 cc) = key_of cc"
  "key_of (tail_update f7 cc) = key_of cc"
  "key_of (root_update f8 cc) = key_of cc"
  by (simp_all add: key_of_def fun_eq_iff)

lemma slot_update [simp]:
  "slot (store_len_update f1 cc) = slot cc"
  "slot (store_ptr_update f2 cc) = slot cc"
  "slot (index_key_update f3 cc) = slot cc"
  "slot (hash_update f4 cc) = slot cc"
  "slot (init_done_update f5 cc) = slot cc"
  "slot (head_update f6 cc) = slot cc"
  "slot (tail_update f7 cc) = slot cc"
  "slot (root_update f8 cc) = slot cc"
  by (simp_all add: slot_def fun_eq_iff)

lemma slot_aligned: "slot cc x \<Longrightarrow> unat x mod 100 = 0"
  by (simp add: slot_def offs)

lemma slot_bound: "slot cc x \<Longrightarrow> k \<le> 96 \<Longrightarrow> unat x + k + 4 \<le> length (store cc)"
  by (simp add: slot_def offs)

lemma slot_poke32_field [simp]:
  "slot cc w \<Longrightarrow> k \<le> 96 \<Longrightarrow> slot (poke32 cc (unat w + k) v) = slot cc"
  using slot_bound[of cc w k] by (simp add: fun_eq_iff)

lemma length_poke32_field [simp]:
  "slot cc w \<Longrightarrow> k \<le> 96 \<Longrightarrow> length (store (poke32 cc (unat w + k) v)) = length (store cc)"
  using slot_bound[of cc w k] by simp

lemma prev_of_poke32:
  assumes "slot cc w" "unat z mod 100 = 0"
  shows "prev_of (poke32 cc (unat w + 84) v) z = (if z = w then v else prev_of cc z)"
    "prev_of (poke32 cc (unat w + 88) v) z = prev_of cc z"
    "prev_of (poke32 cc (unat w + 92) v) z = prev_of cc z"
    "prev_of (poke32 cc (unat w + 96) v) z = prev_of cc z"
  using assms by (simp_all add: prev_of_def offs fld_poke32_field)

lemma next_of_poke32:
  assumes "slot cc w" "unat z mod 100 = 0"
  shows "next_of (poke32 cc (unat w + 84) v) z = next_of cc z"
    "next_of (poke32 cc (unat w + 88) v) z = (if z = w then v else next_of cc z)"
    "next_of (poke32 cc (unat w + 92) v) z = next_of cc z"
    "next_of (poke32 cc (unat w + 96) v) z = next_of cc z"
  using assms by (simp_all add: next_of_def offs fld_poke32_field)

lemma left_of_poke32:
  assumes "slot cc w" "unat z mod 100 = 0"
  shows "left_of (poke32 cc (unat w + 84) v) z = left_of cc z"
    "left_of (poke32 cc (unat w + 88) v) z = left_of cc z"
    "left_of (poke32 cc (unat w + 92) v) z = (if z = w then v else left_of cc z)"
    "left_of (poke32 cc (unat w + 96) v) z = left_of cc z"
  using assms by (simp_all add: left_of_def offs fld_poke32_field)

lemma right_of_poke32:
  assumes "slot cc w" "unat z mod 100 = 0"
  shows "right_of (poke32 cc (unat w + 84) v) z = right_of cc z"
    "right_of (poke32 cc (unat w + 88) v) z = right_of cc z"
    "right_of (poke32 cc (unat w + 92) v) z = right_of cc z"
    "right_of (poke32 cc (unat w + 96) v) z = (if z = w then v else right_of cc z)"
  using assms by (simp_all add: right_of_def offs fld_poke32_field)

lemma data_poke32:
  assumes "slot cc w" "unat z mod 100 = 0" "k \<in> {84, 88, 92, 96}" "a + m \<le> 84"
  shows "peek (store (poke32 cc (unat w + k) v)) (unat z + a) m = peek (store cc) (unat z + a) m"
proof -
  have w: "unat w mod 100 = 0" "unat w + 100 \<le> length (store cc)"
    using assms(1) by (simp_all add: slot_def offs)
  have k: "k + 4 \<le> 100" "84 \<le> k" using assms(3) by auto
  have bound: "unat w + k + length (br_enc32be v) \<le> length (store cc)" using w k by simp
  have "unat z + a + m \<le> unat w + k \<or> unat w + k + 4 \<le> unat z + a"
  proof (cases "unat z = unat w")
    case True
    then show ?thesis using assms(4) k by linarith
  next
    case False
    have "a + m \<le> 100" using assms(4) by simp
    from blocks_apart[OF w(1) assms(2) _ k(1) this] False show ?thesis by auto
  qed
  then show ?thesis using bound by (simp add: poke32_def peek_overwrite_other)
qed

lemma key_of_poke32:
  assumes "slot cc w" "unat z mod 100 = 0" "k \<in> {84, 88, 92, 96}"
  shows "key_of (poke32 cc (unat w + k) v) z = key_of cc z"
  using data_poke32[OF assms, of 0 32 v] by (simp add: key_of_def offs)

lemmas setters = set_prev_def set_next_def set_left_def set_right_def
lemmas poke32_views = prev_of_poke32 next_of_poke32 left_of_poke32 right_of_poke32

lemma set_slot:
  assumes "slot cc w"
  shows "set_prev cc w v = Inr (poke32 cc (unat w + 84) v)"
    "set_next cc w v = Inr (poke32 cc (unat w + 88) v)"
    "set_left cc w v = Inr (poke32 cc (unat w + 92) v)"
    "set_right cc w v = Inr (poke32 cc (unat w + 96) v)"
  using slot_bound[OF assms, of 84] slot_bound[OF assms, of 88] slot_bound[OF assms, of 92]
    slot_bound[OF assms, of 96]
  by (simp_all add: setters offs set32_ok)

lemma pokeb_fields [simp]:
  "store_len (pokeb cc a bs) = store_len cc"
  "store_ptr (pokeb cc a bs) = store_ptr cc"
  "index_key (pokeb cc a bs) = index_key cc"
  "hash (pokeb cc a bs) = hash cc"
  "init_done (pokeb cc a bs) = init_done cc"
  "head (pokeb cc a bs) = head cc"
  "tail (pokeb cc a bs) = tail cc"
  "root (pokeb cc a bs) = root cc"
  by (simp_all add: pokeb_def)

lemma length_pokeb [simp]:
  "slot cc w \<Longrightarrow> a + length bs \<le> 100 \<Longrightarrow>
   length (store (pokeb cc (unat w + a) bs)) = length (store cc)"
  by (simp add: pokeb_def slot_def offs)

lemma slot_pokeb [simp]:
  "slot cc w \<Longrightarrow> a + length bs \<le> 100 \<Longrightarrow> slot (pokeb cc (unat w + a) bs) = slot cc"
  by (simp add: slot_def fun_eq_iff)

lemma peek_pokeb_other:
  assumes "slot cc w" "unat z mod 100 = 0" "a + length bs \<le> 100" "b + m \<le> 100"
    "z \<noteq> w \<or> b + m \<le> a \<or> a + length bs \<le> b"
  shows "peek (store (pokeb cc (unat w + a) bs)) (unat z + b) m = peek (store cc) (unat z + b) m"
proof -
  have w: "unat w mod 100 = 0" "unat w + 100 \<le> length (store cc)"
    using assms(1) by (simp_all add: slot_def offs)
  have bound: "unat w + a + length bs \<le> length (store cc)" using w assms(3) by simp
  have "unat z + b + m \<le> unat w + a \<or> unat w + a + length bs \<le> unat z + b"
  proof (cases "z = w")
    case True
    then show ?thesis using assms(5) by auto
  next
    case False
    then have "unat w \<noteq> unat z" by (auto simp: word_unat_eq_iff)
    from blocks_apart[OF w(1) assms(2) this assms(3,4)] show ?thesis by auto
  qed
  then show ?thesis using bound by (simp add: pokeb_def peek_overwrite_other)
qed

lemma peek_pokeb_same:
  assumes "slot cc w" "a + length bs \<le> 100" "m = length bs"
  shows "peek (store (pokeb cc (unat w + a) bs)) (unat w + a) m = bs"
proof -
  have "unat w + a + length bs \<le> length (store cc)"
    using assms(1,2) by (simp add: slot_def offs)
  then show ?thesis using assms(3) by (simp add: pokeb_def peek_overwrite_same)
qed

lemma views_pokeb:
  assumes "slot cc w" "unat z mod 100 = 0" "a + length bs \<le> 84"
  shows "prev_of (pokeb cc (unat w + a) bs) z = prev_of cc z"
    "next_of (pokeb cc (unat w + a) bs) z = next_of cc z"
    "left_of (pokeb cc (unat w + a) bs) z = left_of cc z"
    "right_of (pokeb cc (unat w + a) bs) z = right_of cc z"
  using assms
  by (simp_all add: prev_of_def next_of_def left_of_def right_of_def fld_def offs peek_pokeb_other)

lemma peek_poke32_other:
  assumes "slot cc w" "unat z mod 100 = 0" "k \<in> {84, 88, 92, 96}" "b + m \<le> 100"
    "z \<noteq> w \<or> b + m \<le> k \<or> k + 4 \<le> b"
  shows "peek (store (poke32 cc (unat w + k) v)) (unat z + b) m = peek (store cc) (unat z + b) m"
proof -
  have "k + length (br_enc32be v) \<le> 100" using assms(3) by auto
  from peek_pokeb_other[OF assms(1,2) this assms(4)] assms(5)
  show ?thesis by (simp add: pokeb_def poke32_def)
qed

lemma store_bytes_slot:
  "slot cc w \<Longrightarrow> a + length bs \<le> 100 \<Longrightarrow>
   store_bytes (store cc) (unat w + a) bs = Inr (store (pokeb cc (unat w + a) bs))"
  by (simp add: store_bytes_def pokeb_def slot_def offs)

lemmas store_bytes_slot0 = store_bytes_slot[where a = 0, simplified]
lemmas length_pokeb0 = length_pokeb[where a = 0, simplified]
lemmas slot_pokeb0 = slot_pokeb[where a = 0, simplified]
lemmas views_pokeb0 = views_pokeb[where a = 0, simplified]
lemmas peek_pokeb_same0 = peek_pokeb_same[where a = 0, simplified]
lemmas peek_pokeb_other0 = peek_pokeb_other[where a = 0, simplified]

lemma pokeb_pokeb_store:
  "cc\<lparr>store := store (pokeb cc a bs)\<rparr> = pokeb cc a bs"
  "pokeb (cc\<lparr>store := st\<rparr>) a bs = cc\<lparr>store := overwrite st a bs\<rparr>"
  by (simp_all add: pokeb_def)

lemma slot_tree_only: "tree_only cc cc' \<Longrightarrow> slot cc' = slot cc"
  by (simp add: tree_only_def slot_def fun_eq_iff)

lemma fill_shape:
  "c\<lparr>head := x, store := store (pokeb (pokeb (pokeb (pokeb c a1 b1) a2 b2) a3 b3) a4 b4)\<rparr> =
   pokeb (pokeb (pokeb (pokeb (c\<lparr>head := x\<rparr>) a1 b1) a2 b2) a3 b3) a4 b4"
  by (simp add: pokeb_def)

lemma peek_poke32_same:
  assumes "slot cc w" "k \<le> 96"
  shows "peek (store (poke32 cc (unat w + k) v)) (unat w + k) 4 = br_enc32be v"
  using slot_bound[OF assms] by (simp add: poke32_def peek_overwrite_same)

lemma peek_update [simp]:
  "store (store_len_update f1 cc) = store cc"
  "store (store_ptr_update f2 cc) = store cc"
  "store (head_update f6 cc) = store cc"
  "store (tail_update f7 cc) = store cc"
  "store (root_update f8 cc) = store cc"
  by simp_all

lemma peek_pokeb_abs:
  assumes "slot cc w" "unat w \<le> a" "a + length bs \<le> unat w + 100"
    "b + m \<le> a \<or> a + length bs \<le> b"
  shows "peek (store (pokeb cc a bs)) b m = peek (store cc) b m"
proof -
  have "a + length bs \<le> length (store cc)" using assms(1,3) by (simp add: slot_def offs)
  then show ?thesis using assms(4) by (simp add: pokeb_def peek_overwrite_other)
qed

lemma peek_pokeb_abs_same:
  assumes "slot cc w" "unat w \<le> a" "a + length bs \<le> unat w + 100" "m = length bs"
  shows "peek (store (pokeb cc a bs)) a m = bs"
proof -
  have "a + length bs \<le> length (store cc)" using assms(1,3) by (simp add: slot_def offs)
  then show ?thesis using assms(4) by (simp add: pokeb_def peek_overwrite_same)
qed

lemma peek_poke32_abs:
  assumes "slot cc w" "unat w \<le> a" "a + 4 \<le> unat w + 100" "b + m \<le> a \<or> a + 4 \<le> b"
  shows "peek (store (poke32 cc a v)) b m = peek (store cc) b m"
proof -
  have "a + length (br_enc32be v) \<le> length (store cc)"
    using assms(1,3) by (simp add: slot_def offs)
  then show ?thesis using assms(4) by (simp add: poke32_def peek_overwrite_other)
qed

lemma peek_poke32_abs_same:
  assumes "slot cc w" "unat w \<le> a" "a + 4 \<le> unat w + 100"
  shows "peek (store (poke32 cc a v)) a 4 = br_enc32be v"
proof -
  have "a + length (br_enc32be v) \<le> length (store cc)"
    using assms(1,3) by (simp add: slot_def offs)
  then show ?thesis by (simp add: poke32_def peek_overwrite_same)
qed

lemma key_of_pokeb:
  assumes "slot cc w" "unat z mod 100 = 0" "a + length bs \<le> 100" "z \<noteq> w"
  shows "key_of (pokeb cc (unat w + a) bs) z = key_of cc z"
  using peek_pokeb_other[OF assms(1-3), of 0 32] assms(4) by (simp add: key_of_def offs)

lemmas key_of_pokeb0 = key_of_pokeb[where a = 0, simplified]

section \<open>The list after a load\<close>

lemma entries_iff: "x \<in> entries cc \<longleftrightarrow> below (store_ptr cc) x"
  by (simp add: entries_def)

lemma slab_ok_slot: "slab_ok cc \<Longrightarrow> below (store_ptr cc) x \<Longrightarrow> slot cc x"
  by (rule below_slot) (auto simp: slab_ok_def offs)

lemma below_aligned: "below n x \<Longrightarrow> unat x mod 100 = 0"
  by (simp add: below_def offs)

lemma tree_ok_frame:
  assumes "tree_ok cc n" "root cc' = root cc"
    "\<And>z. below n z \<Longrightarrow> left_of cc' z = left_of cc z \<and> right_of cc' z = right_of cc z"
  shows "tree_ok cc' n"
  using assms by (simp add: tree_ok_def)

lemma lru_load_move_inv:
  assumes inv: "lru_inv cc" and x: "x \<in> entries cc"
  shows "\<exists>cc'. lru_load_move cc x = returns cc' \<and> lru_inv cc' \<and>
           store_ptr cc' = store_ptr cc \<and> store_len cc' = store_len cc \<and>
           index_key cc' = index_key cc \<and> hash cc' = hash cc \<and>
           init_done cc' = init_done cc \<and> root cc' = root cc \<and> head cc' = x"
proof (cases "x = head cc")
  case True
  then show ?thesis using inv by (intro exI[of _ cc]) (simp add: lru_load_move_def)
next
  case False
  define E where "E = entries cc"
  define p where "p = prev_of cc x"
  define n where "n = next_of cc x"
  have slab: "slab_ok cc" and tree: "tree_ok cc (store_ptr cc)"
    and dl: "dlist_inv ADDR_NULL E (head cc) (tail cc) (prev_of cc) (next_of cc)"
    using inv by (simp_all add: lru_inv_def E_def)
  have core: "dlist_core ADDR_NULL E (head cc) (tail cc) (prev_of cc) (next_of cc)"
    and hN: "head cc \<noteq> ADDR_NULL" using dl x by (auto simp: dlist_inv_def E_def)
  note D = dlist_coreD[OF core]
  note ends = dlist_core_ends[OF core]
  have xE: "x \<in> E" using x by (simp add: E_def)
  have hE: "head cc \<in> E" using ends hN by auto
  have pE: "p \<in> E" using D(1,3)[OF xE] False by (auto simp: p_def)
  have nE: "n \<noteq> ADDR_NULL \<Longrightarrow> n \<in> E" using D(2)[OF xE] by (auto simp: n_def)
  have sl: "\<And>z. z \<in> E \<Longrightarrow> slot cc z"
    using slab by (auto simp: E_def entries_iff intro: slab_ok_slot)
  have al: "\<And>z. z \<in> E \<Longrightarrow> unat z mod 100 = 0"
    by (auto simp: E_def entries_iff dest: below_aligned)
  note sx = sl[OF xE] and sp = sl[OF pE] and sh = sl[OF hE]
  define cc' where "cc' =
    (if n = ADDR_NULL then
       (poke32 (poke32 (poke32 ((poke32 cc (unat p + 88) n)\<lparr>tail := p\<rparr>)
          (unat (head cc) + 84) x) (unat x + 88) (head cc)) (unat x + 84) ADDR_NULL)\<lparr>head := x\<rparr>
     else
       (poke32 (poke32 (poke32 (poke32 (poke32 cc (unat p + 88) n) (unat n + 84) p)
          (unat (head cc) + 84) x) (unat x + 88) (head cc)) (unat x + 84) ADDR_NULL)\<lparr>head := x\<rparr>)"
  have run: "lru_load_move cc x = returns cc'"
  proof (cases "n = ADDR_NULL")
    case True
    then show ?thesis using False sx sp sh
      by (simp add: lru_load_move_def cc'_def get_prev_slot get_next_slot set_slot
          p_def[symmetric] n_def[symmetric])
  next
    case nn: False
    then show ?thesis using False sx sp sh sl[OF nE]
      by (simp add: lru_load_move_def cc'_def get_prev_slot get_next_slot set_slot
          p_def[symmetric] n_def[symmetric])
  qed
  have hdr: "store_ptr cc' = store_ptr cc" "store_len cc' = store_len cc"
    "index_key cc' = index_key cc" "hash cc' = hash cc" "init_done cc' = init_done cc"
    "root cc' = root cc" "head cc' = x" "tail cc' = (if n = ADDR_NULL then p else tail cc)"
    by (simp_all add: cc'_def)
  have len: "length (store cc') = length (store cc)"
    using sx sp sh sl[OF nE] by (simp add: cc'_def)
  have xN: "x \<noteq> ADDR_NULL" and pN: "p \<noteq> ADDR_NULL"
    using sx sp by (auto dest: slot_not_null)
  have views: "prev_of cc' z =
      (((if n = ADDR_NULL then prev_of cc else (prev_of cc)(n := p))(head cc := x))(x := ADDR_NULL)) z \<and>
     next_of cc' z = (((next_of cc)(p := n))(x := head cc)) z \<and>
     left_of cc' z = left_of cc z \<and> right_of cc' z = right_of cc z"
    if z: "unat z mod 100 = 0" for z
  proof (cases "n = ADDR_NULL")
    case True
    have "cc' = (poke32 (poke32 (poke32 ((poke32 cc (unat p + 88) n)\<lparr>tail := p\<rparr>)
          (unat (head cc) + 84) x) (unat x + 88) (head cc)) (unat x + 84) ADDR_NULL)\<lparr>head := x\<rparr>"
      using True by (simp add: cc'_def)
    then show ?thesis using z sx sp sh True by (simp add: poke32_views)
  next
    case nn: False
    have "cc' = (poke32 (poke32 (poke32 (poke32 (poke32 cc (unat p + 88) n) (unat n + 84) p)
          (unat (head cc) + 84) x) (unat x + 88) (head cc)) (unat x + 84) ADDR_NULL)\<lparr>head := x\<rparr>"
      using nn by (simp add: cc'_def)
    then show ?thesis using z sx sp sh nn sl[OF nE[OF nn]] by (simp add: poke32_views)
  qed
  have "dlist_inv ADDR_NULL E x (if next_of cc x = ADDR_NULL then prev_of cc x else tail cc)
           (((if next_of cc x = ADDR_NULL then prev_of cc
              else (prev_of cc)(next_of cc x := prev_of cc x))(head cc := x))(x := ADDR_NULL))
           (((next_of cc)(prev_of cc x := next_of cc x))(x := head cc))"
    using dlist_move_to_head[OF dl xE False] .
  then have "dlist_inv ADDR_NULL E (head cc') (tail cc') (prev_of cc') (next_of cc')"
    unfolding hdr p_def[symmetric] n_def[symmetric]
    by (rule dlist_inv_cong) (use views al in \<open>simp add: p_def n_def\<close>)
  moreover have "tree_ok cc' (store_ptr cc')"
    unfolding hdr using tree hdr(6) by (rule tree_ok_frame) (use views in \<open>auto dest: below_aligned\<close>)
  moreover have "slab_ok cc'" using slab hdr len by (simp add: slab_ok_def)
  ultimately have "lru_inv cc'" by (simp add: lru_inv_def E_def entries_def hdr)
  then show ?thesis using run hdr by blast
qed

section \<open>Writes to tree links\<close>

lemma tree_only_refl: "tree_only cc cc"
  by (simp add: tree_only_def)

lemma tree_only_trans: "tree_only a b \<Longrightarrow> tree_only b c \<Longrightarrow> tree_only a c"
  by (simp add: tree_only_def)

lemma tree_only_root: "tree_only cc (cc\<lparr>root := v\<rparr>)"
  by (simp add: tree_only_def)

lemma tree_only_poke32:
  assumes "slot cc w" "k = 92 \<or> k = 96"
  shows "tree_only cc (poke32 cc (unat w + k) v)"
  using assms by (auto simp add: tree_only_def poke32_views offs data_poke32[where a = 0, simplified])

lemma link_addr_unat:
  fixes cc :: "'h br_ssl_session_cache_lru"
  assumes "below n w" "n mod 100 = 0" "n \<le> length (store cc)" "length (store cc) < 2 ^ 32"
  shows "unat (w + of_nat TREE_LEFT_OFF) = unat w + 92" "unat (w + of_nat TREE_RIGHT_OFF) = unat w + 96"
    "w + of_nat TREE_LEFT_OFF \<noteq> ADDR_NULL" "w + of_nat TREE_RIGHT_OFF \<noteq> ADDR_NULL"
proof -
  have s: "slot cc w" using assms by (auto intro: below_slot)
  show l: "unat (w + of_nat TREE_LEFT_OFF) = unat w + 92"
    using unat_slot_off[OF s assms(4), of 92] by (simp add: offs)
  show r: "unat (w + of_nat TREE_RIGHT_OFF) = unat w + 96"
    using unat_slot_off[OF s assms(4), of 96] by (simp add: offs)
  have "unat w mod 100 = 0" using s by (rule slot_aligned)
  then have "(unat w + 92) mod 100 = 92" "(unat w + 96) mod 100 = 96" by presburger+
  then show "w + of_nat TREE_LEFT_OFF \<noteq> ADDR_NULL" "w + of_nat TREE_RIGHT_OFF \<noteq> ADDR_NULL"
    using l r by (auto simp: unat_null)
qed

lemma set_link_cases:
  assumes "link_addr n al" "n mod 100 = 0" "n \<le> length (store cc)" "length (store cc) < 2 ^ 32"
  shows "(al = ADDR_NULL \<and> set_link cc al v = Inr (cc\<lparr>root := v\<rparr>)) \<or>
         (\<exists>w. below n w \<and> slot cc w \<and>
            (set_link cc al v = Inr (poke32 cc (unat w + 92) v) \<or>
             set_link cc al v = Inr (poke32 cc (unat w + 96) v)))"
proof (cases "al = ADDR_NULL")
  case True
  then show ?thesis by (simp add: set_link_def)
next
  case False
  then obtain w where w: "below n w"
    and al: "al = w + of_nat TREE_LEFT_OFF \<or> al = w + of_nat TREE_RIGHT_OFF"
    using assms(1) by (auto simp: link_addr_def)
  have s: "slot cc w" using w assms by (auto intro: below_slot)
  note u = link_addr_unat[OF w assms(2-4)]
  from al show ?thesis
  proof
    assume "al = w + of_nat TREE_LEFT_OFF"
    then have "set_link cc al v = Inr (poke32 cc (unat w + 92) v)"
      using u slot_bound[OF s, of 92] by (simp add: set_link_def set32_ok)
    then show ?thesis using w s by blast
  next
    assume "al = w + of_nat TREE_RIGHT_OFF"
    then have "set_link cc al v = Inr (poke32 cc (unat w + 96) v)"
      using u slot_bound[OF s, of 96] by (simp add: set_link_def set32_ok)
    then show ?thesis using w s by blast
  qed
qed

text \<open>
  After \<open>set_link\<close> the tree links are the former ones or the value written, and nothing
  else has changed.
\<close>

lemma set_link_eff:
  assumes "link_addr n al" "n mod 100 = 0" "n \<le> length (store cc)" "length (store cc) < 2 ^ 32"
  shows "\<exists>cc'. set_link cc al v = Inr cc' \<and> tree_only cc cc' \<and>
           (root cc' = root cc \<or> root cc' = v) \<and>
           (\<forall>z. unat z mod 100 = 0 \<longrightarrow>
              (left_of cc' z = left_of cc z \<or> left_of cc' z = v) \<and>
              (right_of cc' z = right_of cc z \<or> right_of cc' z = v))"
  using set_link_cases[OF assms, of v]
proof (elim disjE conjE exE)
  assume "set_link cc al v = Inr (cc\<lparr>root := v\<rparr>)"
  then show ?thesis by (auto simp: tree_only_root)
next
  fix w assume "slot cc w" "set_link cc al v = Inr (poke32 cc (unat w + 92) v)"
  then show ?thesis by (auto simp: tree_only_poke32 poke32_views)
next
  fix w assume "slot cc w" "set_link cc al v = Inr (poke32 cc (unat w + 96) v)"
  then show ?thesis by (auto simp: tree_only_poke32 poke32_views)
qed

lemma tree_only_length: "tree_only cc cc' \<Longrightarrow> length (store cc') = length (store cc)"
  by (simp add: tree_only_def)

lemma tree_ok_write:
  assumes "tree_ok cc n" "null_or_below n v" "root cc' = root cc \<or> root cc' = v"
    "\<forall>z. unat z mod 100 = 0 \<longrightarrow>
              (left_of cc' z = left_of cc z \<or> left_of cc' z = v) \<and>
              (right_of cc' z = right_of cc z \<or> right_of cc' z = v)"
  shows "tree_ok cc' n"
  unfolding tree_ok_def
proof (intro conjI allI impI)
  show "null_or_below n (root cc')" using assms(1-3) by (auto simp: tree_ok_def)
next
  fix z assume z: "below n z"
  then have a: "unat z mod 100 = 0" by (rule below_aligned)
  have "null_or_below n (left_of cc z)" "null_or_below n (right_of cc z)"
    using assms(1) z by (auto simp: tree_ok_def)
  then show "null_or_below n (left_of cc' z)" "null_or_below n (right_of cc' z)"
    using assms(2) assms(4)[rule_format, OF a] by auto
qed

lemma remove_node_ok:
  assumes run: "remove_node cc x = Some r"
    and tree: "tree_ok cc n" and n: "n mod 100 = 0" "n \<le> length (store cc)"
      "length (store cc) < 2 ^ 32"
    and x: "below n x"
  shows "\<exists>cc'. r = Inr cc' \<and> tree_ok cc' n \<and> tree_only cc cc'"
proof -
  have sx: "slot cc x" using x n by (auto intro: below_slot)
  have key: "load_bytes (store cc) (unat x + SESSION_ID_OFF) SESSION_ID_LEN = Inr (key_of cc x)"
    using sx by (rule load_key_slot)
  from run obtain r1 where r1: "find_node cc (Inr (key_of cc x)) = Some r1"
    by (auto simp: remove_node_def key and_then_eq_Some)
  from find_node_ok[OF r1 tree n(1,2)] obtain f alx where
    fa: "r1 = Inr (f, alx)" "link_addr n alx" by blast
  from run r1 fa obtain r2 where r2: "find_replacement_node cc x = Some r2"
    by (auto simp: remove_node_def key and_then_eq_Some)
  from find_replacement_node_ok[OF r2 tree n(1,2) x] obtain y aly where
    ya: "r2 = Inr (y, aly)" "null_or_below n y" "link_addr n aly" by blast
  from set_link_eff[OF ya(3) n, of ADDR_NULL] obtain cc1 where
    c1: "set_link cc aly ADDR_NULL = Inr cc1" "tree_only cc cc1"
      "root cc1 = root cc \<or> root cc1 = ADDR_NULL"
      "\<forall>z. unat z mod 100 = 0 \<longrightarrow>
              (left_of cc1 z = left_of cc z \<or> left_of cc1 z = ADDR_NULL) \<and>
              (right_of cc1 z = right_of cc z \<or> right_of cc1 z = ADDR_NULL)"
    by blast
  have t1: "tree_ok cc1 n"
    using tree_ok_write[OF tree _ c1(3,4)] by (simp add: null_or_below_def)
  have l1: "length (store cc1) = length (store cc)" using c1(2) by (rule tree_only_length)
  from set_link_eff[OF fa(2) n(1), of cc1 y] n l1 obtain cc2 where
    c2: "set_link cc1 alx y = Inr cc2" "tree_only cc1 cc2"
      "root cc2 = root cc1 \<or> root cc2 = y"
      "\<forall>z. unat z mod 100 = 0 \<longrightarrow>
              (left_of cc2 z = left_of cc1 z \<or> left_of cc2 z = y) \<and>
              (right_of cc2 z = right_of cc1 z \<or> right_of cc2 z = y)"
    by auto
  have t2: "tree_ok cc2 n" using tree_ok_write[OF t1 ya(2) c2(3,4)] .
  have "r = Inr cc2"
    using run r1 fa r2 ya c1(1) c2(1) by (simp add: remove_node_def key)
  then show ?thesis using t2 tree_only_trans[OF c1(2) c2(2)] by blast
qed

text \<open>What \<open>set_link\<close> writes, link by link: the keys are untouched.\<close>

lemma set_link_exact:
  assumes "link_addr n al" "n mod 100 = 0" "n \<le> length (store cc)" "length (store cc) < 2 ^ 32"
  shows "\<exists>cc'. set_link cc al v = Inr cc' \<and>
           root cc' = (if al = ADDR_NULL then v else root cc) \<and>
           (\<forall>z. below n z \<longrightarrow>
              left_of cc' z = (if z + 92 = al then v else left_of cc z) \<and>
              right_of cc' z = (if z + 96 = al then v else right_of cc z)) \<and>
           (\<forall>z. unat z mod 100 = 0 \<longrightarrow> key_of cc' z = key_of cc z)"
proof (cases "al = ADDR_NULL")
  case True
  have "z + 92 \<noteq> al \<and> z + 96 \<noteq> al" if "below n z" for z
    using link_addr_unat(3,4)[OF that assms(2-4)] True by (simp add: offs)
  then show ?thesis using True by (simp add: set_link_def)
next
  case False
  then obtain w where w: "below n w"
    and al: "al = w + of_nat TREE_LEFT_OFF \<or> al = w + of_nat TREE_RIGHT_OFF"
    using assms(1) by (auto simp: link_addr_def)
  have s: "slot cc w" using w assms by (auto intro: below_slot)
  note u = link_addr_unat[OF w assms(2-4)]
  have cross: "z + 96 \<noteq> w + 92 \<and> z + 92 \<noteq> w + 96" if z: "below n z" for z
  proof -
    have a: "unat z mod 100 = 0" "unat w mod 100 = 0"
      using z w by (auto dest: below_aligned)
    have "unat (z + 92) = unat z + 92" "unat (z + 96) = unat z + 96"
      using link_addr_unat(1,2)[OF z assms(2-4)] by (simp_all add: offs)
    moreover have "unat (w + 92) = unat w + 92" "unat (w + 96) = unat w + 96"
      using u(1,2) by (simp_all add: offs)
    moreover have "unat z + 96 \<noteq> unat w + 92" "unat z + 92 \<noteq> unat w + 96"
      using a by presburger+
    ultimately show ?thesis by metis
  qed
  from al show ?thesis
  proof
    assume e: "al = w + of_nat TREE_LEFT_OFF"
    then have r: "set_link cc al v = Inr (poke32 cc (unat w + 92) v)"
      using u slot_bound[OF s, of 92] False by (simp add: set_link_def set32_ok)
    have "left_of (poke32 cc (unat w + 92) v) z = (if z + 92 = al then v else left_of cc z) \<and>
          right_of (poke32 cc (unat w + 92) v) z = (if z + 96 = al then v else right_of cc z)"
      if z: "below n z" for z
      using cross[OF z] below_aligned[OF z] s e by (simp add: poke32_views offs)
    moreover have "key_of (poke32 cc (unat w + 92) v) z = key_of cc z"
      if "unat z mod 100 = 0" for z
      using s that by (simp add: key_of_poke32)
    ultimately show ?thesis using r False by simp
  next
    assume e: "al = w + of_nat TREE_RIGHT_OFF"
    then have r: "set_link cc al v = Inr (poke32 cc (unat w + 96) v)"
      using u slot_bound[OF s, of 96] False by (simp add: set_link_def set32_ok)
    have "left_of (poke32 cc (unat w + 96) v) z = (if z + 92 = al then v else left_of cc z) \<and>
          right_of (poke32 cc (unat w + 96) v) z = (if z + 96 = al then v else right_of cc z)"
      if z: "below n z" for z
      using cross[OF z] below_aligned[OF z] s e by (simp add: poke32_views offs)
    moreover have "key_of (poke32 cc (unat w + 96) v) z = key_of cc z"
      if "unat z mod 100 = 0" for z
      using s that by (simp add: key_of_poke32)
    ultimately show ?thesis using r False by simp
  qed
qed

section \<open>The two halves of a save\<close>

lemma below_next:
  assumes "n mod 100 = 0"
  shows "below (n + 100) z \<longleftrightarrow> below n z \<or> unat z = n"
proof
  assume "below (n + 100) z"
  then have z: "unat z mod 100 = 0" "unat z < n + 100" by (simp_all add: below_def offs)
  show "below n z \<or> unat z = n"
  proof (cases "unat z < n")
    case True
    then show ?thesis using z by (simp add: below_def offs)
  next
    case False
    have "\<not> n < unat z" using next_block[OF assms z(1)] z(2) by auto
    then show ?thesis using False by simp
  qed
next
  assume "below n z \<or> unat z = n"
  then show "below (n + 100) z" using assms by (auto simp: below_def offs)
qed

lemma null_or_below_mono: "null_or_below n v \<Longrightarrow> n \<le> m \<Longrightarrow> null_or_below m v"
  by (auto simp: null_or_below_def below_def)

lemma lru_save_room_ok:
  assumes inv: "lru_inv cc" and len: "LRU_ENTRY_LEN \<le> store_len cc"
    and run: "lru_save_room cc = Some r"
  shows "\<exists>cc1 x n. r = Inr (cc1, x) \<and> save_mid cc1 x n \<and>
           store_len cc1 = store_len cc \<and> store_ptr cc \<le> store_ptr cc1 \<and>
           index_key cc1 = index_key cc \<and> hash cc1 = hash cc \<and>
           init_done cc1 = init_done cc"
proof -
  define E where "E = entries cc"
  have slab: "slab_ok cc" and tree: "tree_ok cc (store_ptr cc)"
    and dl: "dlist_inv ADDR_NULL E (head cc) (tail cc) (prev_of cc) (next_of cc)"
    using inv by (simp_all add: lru_inv_def E_def)
  have sl: "length (store cc) = store_len cc" "store_len cc < 2 ^ 32"
    "store_ptr cc mod 100 = 0" "store_ptr cc \<le> store_len cc"
    using slab by (simp_all add: slab_ok_def offs)
  have core: "dlist_core ADDR_NULL E (head cc) (tail cc) (prev_of cc) (next_of cc)"
    using dl by (rule dlist_inv_core)
  show ?thesis
  proof (cases "store_ptr cc > store_len cc - LRU_ENTRY_LEN")
    case False
    define x :: u32 where "x = of_nat (store_ptr cc)"
    define cc1 where "cc1 = cc\<lparr>store_ptr := store_ptr cc + LRU_ENTRY_LEN\<rparr>"
    have r: "r = Inr (cc1, x)"
      using run False by (simp add: lru_save_room_def Let_def x_def cc1_def)
    have fit: "store_ptr cc + 100 \<le> store_len cc" using False len by (simp add: offs)
    have ux: "unat x = store_ptr cc" using sl fit by (simp add: x_def unat_of_nat)
    have bx: "below (store_ptr cc1) x"
      using ux sl by (simp add: cc1_def offs below_def)
    have ent: "entries cc1 - {x} = E"
      using ux below_next[OF sl(3)]
      by (auto simp: entries_def E_def cc1_def offs below_def word_unat_eq_iff)
    have "slab_ok cc1" using sl fit by (simp add: slab_ok_def cc1_def offs)
    moreover have "tree_ok cc1 (store_ptr cc)" using tree by (simp add: tree_ok_def cc1_def)
    moreover have "dlist_core ADDR_NULL (entries cc1 - {x}) (head cc1) (tail cc1)
        (prev_of cc1) (next_of cc1)"
      using core by (simp add: ent) (simp add: cc1_def)
    ultimately have "save_mid cc1 x (store_ptr cc)"
      using bx sl ux by (simp add: save_mid_def offs) (simp add: cc1_def offs)
    then show ?thesis using r by (auto simp: cc1_def)
  next
    case True
    define x where "x = tail cc"
    define t1 where "t1 = prev_of cc x"
    have pos: "0 < store_ptr cc" using True by simp
    have "(0 :: u32) \<in> E" using pos by (simp add: E_def entries_def below_def)
    then have ne: "E \<noteq> {}" by blast
    have hN: "head cc \<noteq> ADDR_NULL" using dl ne by (simp add: dlist_inv_def)
    note ends = dlist_core_ends[OF core]
    have xE: "x \<in> E" using ends hN by (auto simp: x_def)
    have bel: "\<And>z. z \<in> E \<Longrightarrow> below (store_ptr cc) z" by (simp add: E_def entries_def)
    have slE: "\<And>z. z \<in> E \<Longrightarrow> slot cc z" using slab bel by (auto intro: slab_ok_slot)
    have sx: "slot cc x" using slE[OF xE] .
    have t1E: "t1 \<noteq> ADDR_NULL \<Longrightarrow> t1 \<in> E"
      using dlist_coreD(1)[OF core xE] by (auto simp: t1_def)
    define cc2 where "cc2 =
      (if t1 = ADDR_NULL then cc\<lparr>tail := t1, head := ADDR_NULL\<rparr>
       else poke32 (cc\<lparr>tail := t1\<rparr>) (unat t1 + 88) ADDR_NULL)"
    have run2: "and_then (remove_node cc2 x) (\<lambda>cc. returns (cc, x)) = Some r"
    proof (cases "t1 = ADDR_NULL")
      case t: True
      then show ?thesis using run True sx
        by (simp add: lru_save_room_def Let_def x_def[symmetric] get_prev_slot
            t1_def[symmetric] cc2_def)
    next
      case t: False
      then show ?thesis using run True sx slE[OF t1E[OF t]]
        by (simp add: lru_save_room_def Let_def x_def[symmetric] get_prev_slot
            t1_def[symmetric] cc2_def set_slot)
    qed
    have hdr2: "store_ptr cc2 = store_ptr cc" "store_len cc2 = store_len cc"
      "index_key cc2 = index_key cc" "hash cc2 = hash cc" "init_done cc2 = init_done cc"
      "root cc2 = root cc" "tail cc2 = t1"
      "head cc2 = (if t1 = ADDR_NULL then ADDR_NULL else head cc)"
      by (simp_all add: cc2_def)
    have len2: "length (store cc2) = length (store cc)"
      using slE[OF t1E] by (simp add: cc2_def)
    have views2: "prev_of cc2 z = prev_of cc z \<and>
        next_of cc2 z = (if t1 = ADDR_NULL then next_of cc else (next_of cc)(t1 := ADDR_NULL)) z \<and>
        left_of cc2 z = left_of cc z \<and> right_of cc2 z = right_of cc z"
      if "unat z mod 100 = 0" for z
      using that slE[OF t1E] by (simp add: cc2_def poke32_views)
    have tree2: "tree_ok cc2 (store_ptr cc)"
      using tree hdr2(6) by (rule tree_ok_frame) (use views2 in \<open>auto dest: below_aligned\<close>)
    from run2 obtain r' where r': "remove_node cc2 x = Some r'"
      by (auto simp: and_then_eq_Some)
    from remove_node_ok[OF r' tree2] sl len2 bel[OF xE]
    obtain cc3 where c3: "r' = Inr cc3" "tree_ok cc3 (store_ptr cc)" "tree_only cc2 cc3"
      by auto
    have r: "r = Inr (cc3, x)" using run2 r' c3(1) by simp
    have hdr3: "store_ptr cc3 = store_ptr cc" "store_len cc3 = store_len cc"
      "index_key cc3 = index_key cc" "hash cc3 = hash cc" "init_done cc3 = init_done cc"
      "tail cc3 = t1" "head cc3 = (if t1 = ADDR_NULL then ADDR_NULL else head cc)"
      "length (store cc3) = length (store cc)"
      using c3(3) hdr2 len2 by (simp_all add: tree_only_def)
    have views3: "prev_of cc3 z = prev_of cc z \<and>
        next_of cc3 z = (if t1 = ADDR_NULL then next_of cc else (next_of cc)(t1 := ADDR_NULL)) z"
      if "unat z mod 100 = 0" for z
      using that views2[OF that] c3(3) by (simp add: tree_only_def offs)
    have "dlist_core ADDR_NULL (E - {tail cc})
        (if prev_of cc (tail cc) = ADDR_NULL then ADDR_NULL else head cc) (prev_of cc (tail cc))
        (prev_of cc)
        (if prev_of cc (tail cc) = ADDR_NULL then next_of cc
         else (next_of cc)(prev_of cc (tail cc) := ADDR_NULL))"
      using dlist_evict_tail[OF dl ne] .
    then have "dlist_core ADDR_NULL (E - {x}) (head cc3) (tail cc3) (prev_of cc3) (next_of cc3)"
      unfolding hdr3 x_def[symmetric] t1_def[symmetric]
    proof (rule dlist_core_cong)
      fix z assume "z \<in> E - {x}"
      then have "unat z mod 100 = 0" using bel by (auto dest: below_aligned)
      from views3[OF this]
      show "prev_of cc3 z = prev_of cc z \<and>
        next_of cc3 z = (if t1 = ADDR_NULL then next_of cc else (next_of cc)(t1 := ADDR_NULL)) z" .
    qed
    moreover have "slab_ok cc3" using slab hdr3 by (simp add: slab_ok_def)
    ultimately have "save_mid cc3 x (store_ptr cc)"
      using c3(2) bel[OF xE] sl hdr3 by (simp add: save_mid_def offs E_def entries_def)
    then show ?thesis using r hdr3 by auto
  qed
qed

lemma lru_save_link_ok:
  assumes mid: "save_mid cc x n" and run: "lru_save_link cc x idb params = Some r"
  shows "\<exists>cc'. r = Inr cc' \<and> lru_inv cc' \<and>
           store_ptr cc' = store_ptr cc \<and> store_len cc' = store_len cc \<and>
           index_key cc' = index_key cc \<and> hash cc' = hash cc \<and>
           init_done cc' = init_done cc \<and> head cc' = x \<and>
           peek (store cc') (unat x) (length (take 32 idb)) = take 32 idb \<and>
           peek (store cc') (unat x + 32) (length (take 48 (master_secret params))) =
             take 48 (master_secret params) \<and>
           peek (store cc') (unat x + 80) 2 = br_enc16be (version params) \<and>
           peek (store cc') (unat x + 82) 2 = br_enc16be (cipher_suite params) \<and>
           peek (store cc') (unat x + 84) 4 = br_enc32be ADDR_NULL \<and>
           peek (store cc') (unat x + 88) 4 = br_enc32be (head cc) \<and>
           peek (store cc') (unat x + 92) 4 = br_enc32be ADDR_NULL \<and>
           peek (store cc') (unat x + 96) 4 = br_enc32be ADDR_NULL \<and>
           (\<forall>f alx. find_node cc (Inr idb) = Some (Inr (f, alx)) \<longrightarrow>
              root cc' = (if alx = ADDR_NULL then x else root cc) \<and>
              (\<forall>z. below n z \<and> z \<noteq> x \<longrightarrow>
                 left_of cc' z = (if z + 92 = alx then x else left_of cc z) \<and>
                 right_of cc' z = (if z + 96 = alx then x else right_of cc z) \<and>
                 key_of cc' z = key_of cc z))"
proof -
  define E where "E = entries cc - {x}"
  have slab: "slab_ok cc" and bx: "below (store_ptr cc) x" and tree: "tree_ok cc n"
    and n: "n mod 100 = 0" "n = store_ptr cc \<or> (n + 100 = store_ptr cc \<and> unat x = n)"
    and core: "dlist_core ADDR_NULL E (head cc) (tail cc) (prev_of cc) (next_of cc)"
    using mid by (simp_all add: save_mid_def E_def offs)
  have sl: "length (store cc) = store_len cc" "store_len cc < 2 ^ 32"
    "store_ptr cc mod 100 = 0" "store_ptr cc \<le> store_len cc"
    using slab by (simp_all add: slab_ok_def offs)
  have nle: "n \<le> store_ptr cc" using n(2) by auto
  have nlen: "n \<le> length (store cc)" "length (store cc) < 2 ^ 32" using nle sl by auto
  have sx: "slot cc x" using slab bx by (rule slab_ok_slot)
  have xN: "x \<noteq> ADDR_NULL" using sx by (rule slot_not_null)
  have xE: "x \<notin> E" by (simp add: E_def)
  note ends = dlist_core_ends[OF core]
  have EE: "\<And>z. z \<in> E \<Longrightarrow> below (store_ptr cc) z" by (simp add: E_def entries_def)
  have slE: "\<And>z. z \<in> E \<Longrightarrow> slot cc z" using slab EE by (auto intro: slab_ok_slot)
  have hE: "head cc \<noteq> ADDR_NULL \<Longrightarrow> head cc \<in> E" using ends by auto
  from run obtain r1 where r1: "find_node cc (Inr idb) = Some r1"
    by (auto simp: lru_save_link_def and_then_eq_Some)
  from find_node_ok[OF r1 tree n(1) nlen(1)] obtain f alx where
    fa: "r1 = Inr (f, alx)" "link_addr n alx" by blast
  from set_link_eff[OF fa(2) n(1) nlen, of x] obtain cc1 where
    c1: "set_link cc alx x = Inr cc1" "tree_only cc cc1"
      "root cc1 = root cc \<or> root cc1 = x"
      "\<forall>z. unat z mod 100 = 0 \<longrightarrow>
              (left_of cc1 z = left_of cc z \<or> left_of cc1 z = x) \<and>
              (right_of cc1 z = right_of cc z \<or> right_of cc1 z = x)"
    by blast
  from set_link_exact[OF fa(2) n(1) nlen, of x] c1(1)
  have ex1: "root cc1 = (if alx = ADDR_NULL then x else root cc)"
    "\<And>z. below n z \<Longrightarrow>
       left_of cc1 z = (if z + 92 = alx then x else left_of cc z) \<and>
       right_of cc1 z = (if z + 96 = alx then x else right_of cc z)"
    "\<And>z. unat z mod 100 = 0 \<Longrightarrow> key_of cc1 z = key_of cc z"
    by auto
  have s1: "slot cc1 = slot cc" using c1(2) by (rule slot_tree_only)
  have hdr1: "store_ptr cc1 = store_ptr cc" "store_len cc1 = store_len cc"
    "index_key cc1 = index_key cc" "hash cc1 = hash cc" "init_done cc1 = init_done cc"
    "head cc1 = head cc" "tail cc1 = tail cc" "length (store cc1) = length (store cc)"
    using c1(2) by (simp_all add: tree_only_def)
  have views1: "prev_of cc1 z = prev_of cc z \<and> next_of cc1 z = next_of cc z"
    if "unat z mod 100 = 0" for z
    using that c1(2) by (simp add: tree_only_def offs)
  define kb where "kb = take 32 idb"
  define ms where "ms = take 48 (master_secret params)"
  have lens: "length kb \<le> 32" "length ms \<le> 48" by (simp_all add: kb_def ms_def)
  define fill where "fill = (\<lambda>c :: 'a br_ssl_session_cache_lru.
    pokeb (pokeb (pokeb (pokeb c (unat x) kb) (unat x + 32) ms)
      (unat x + 80) (br_enc16be (version params))) (unat x + 82)
      (br_enc16be (cipher_suite params)))"
  define links where "links = (\<lambda>c :: 'a br_ssl_session_cache_lru.
    (poke32 (poke32 c (unat x + 84) ADDR_NULL) (unat x + 88) (head cc))\<lparr>head := x\<rparr>)"
  define tl where "tl = (\<lambda>c :: 'a br_ssl_session_cache_lru.
    poke32 (poke32 c (unat x + 92) ADDR_NULL) (unat x + 96) ADDR_NULL)"
  define cc' where "cc' =
    (if head cc = ADDR_NULL then fill (links ((tl cc1)\<lparr>tail := x\<rparr>))
     else fill (links (poke32 (tl cc1) (unat (head cc) + 84) x)))"
  have sx1: "slot cc1 x" using sx s1 by simp
  have r: "r = Inr cc'"
  proof (cases "head cc = ADDR_NULL")
    case True
    then show ?thesis using run r1 fa(1) c1(1) sx1 hdr1(6) lens
      by (simp add: lru_save_link_def set_slot cc'_def fill_def links_def tl_def
          store_bytes_slot store_bytes_slot0 slot_pokeb0 offs kb_def[symmetric]
          ms_def[symmetric] fill_shape)
  next
    case False
    have "slot cc1 (head cc)" using slE[OF hE[OF False]] s1 by simp
    then show ?thesis using False run r1 fa(1) c1(1) sx1 hdr1(6) lens
      by (simp add: lru_save_link_def set_slot cc'_def fill_def links_def tl_def
          store_bytes_slot store_bytes_slot0 slot_pokeb0 offs kb_def[symmetric]
          ms_def[symmetric] fill_shape)
  qed
  have hN: "head cc \<noteq> ADDR_NULL \<Longrightarrow> slot cc1 (head cc)"
    using slE[OF hE] s1 by simp
  have al: "unat x mod 100 = 0" using sx by (rule slot_aligned)
  have hdr: "store_ptr cc' = store_ptr cc" "store_len cc' = store_len cc"
    "index_key cc' = index_key cc" "hash cc' = hash cc" "init_done cc' = init_done cc"
    "head cc' = x" "tail cc' = (if head cc = ADDR_NULL then x else tail cc)"
    "root cc' = root cc1"
    by (simp_all add: cc'_def fill_def links_def tl_def hdr1)
  have len: "length (store cc') = length (store cc)"
    using sx1 hN lens
    by (simp add: cc'_def fill_def links_def tl_def hdr1 slot_pokeb0 length_pokeb0)
  have views: "prev_of cc' z =
        ((if head cc = ADDR_NULL then prev_of cc else (prev_of cc)(head cc := x))(x := ADDR_NULL)) z \<and>
      next_of cc' z = ((next_of cc)(x := head cc)) z \<and>
      left_of cc' z = (if z = x then ADDR_NULL else left_of cc1 z) \<and>
      right_of cc' z = (if z = x then ADDR_NULL else right_of cc1 z)"
    if z: "unat z mod 100 = 0" for z
  proof (cases "head cc = ADDR_NULL")
    case True
    then show ?thesis using z sx1 lens views1[OF z]
      by (simp add: cc'_def fill_def links_def tl_def poke32_views views_pokeb views_pokeb0
          slot_pokeb0)
  next
    case False
    then show ?thesis using z sx1 lens views1[OF z] hN[OF False]
      by (simp add: cc'_def fill_def links_def tl_def poke32_views views_pokeb views_pokeb0
          slot_pokeb0)
  qed
  have keys: "key_of cc' z = key_of cc1 z" if z: "unat z mod 100 = 0" "z \<noteq> x" for z
  proof (cases "head cc = ADDR_NULL")
    case True
    then show ?thesis using z sx1 lens
      by (simp add: cc'_def fill_def links_def tl_def key_of_poke32 key_of_pokeb key_of_pokeb0
          slot_pokeb0)
  next
    case False
    then show ?thesis using z sx1 lens hN[OF False]
      by (simp add: cc'_def fill_def links_def tl_def key_of_poke32 key_of_pokeb key_of_pokeb0
          slot_pokeb0)
  qed
  have frame: "root cc' = (if alx' = ADDR_NULL then x else root cc) \<and>
      (\<forall>z. below n z \<and> z \<noteq> x \<longrightarrow>
         left_of cc' z = (if z + 92 = alx' then x else left_of cc z) \<and>
         right_of cc' z = (if z + 96 = alx' then x else right_of cc z) \<and>
         key_of cc' z = key_of cc z)"
    if f': "find_node cc (Inr idb) = Some (Inr (f', alx'))" for f' alx'
  proof -
    have e: "alx' = alx" using f' r1 fa(1) by simp
    have "left_of cc' z = (if z + 92 = alx then x else left_of cc z) \<and>
         right_of cc' z = (if z + 96 = alx then x else right_of cc z) \<and>
         key_of cc' z = key_of cc z" if z: "below n z" "z \<noteq> x" for z
    proof -
      have a: "unat z mod 100 = 0" using z(1) by (rule below_aligned)
      show ?thesis using views[OF a] keys[OF a z(2)] ex1(2)[OF z(1)] ex1(3)[OF a] z(2) by simp
    qed
    then show ?thesis unfolding e using hdr(8) ex1(1) by simp
  qed
  have layout: "peek (store cc') (unat x) (length kb) = kb"
    "peek (store cc') (unat x + 32) (length ms) = ms"
    "peek (store cc') (unat x + 80) 2 = br_enc16be (version params)"
    "peek (store cc') (unat x + 82) 2 = br_enc16be (cipher_suite params)"
    "peek (store cc') (unat x + 84) 4 = br_enc32be ADDR_NULL"
    "peek (store cc') (unat x + 88) 4 = br_enc32be (head cc)"
    "peek (store cc') (unat x + 92) 4 = br_enc32be ADDR_NULL"
    "peek (store cc') (unat x + 96) 4 = br_enc32be ADDR_NULL"
  proof -
    have xh: "head cc \<noteq> ADDR_NULL \<Longrightarrow> x \<noteq> head cc" using hE xE by auto
    note absr = peek_pokeb_abs[where w = x] peek_pokeb_abs_same[where w = x]
      peek_poke32_abs[where w = x] peek_poke32_abs_same[where w = x]
    have rel: "peek (store (poke32 c (unat (head cc) + 84) v)) (unat x + b) 4 =
        peek (store c) (unat x + b) 4"
      if "slot c (head cc)" "head cc \<noteq> ADDR_NULL" "b = 92 \<or> b = 96" for c v b
      using peek_poke32_other[OF that(1) al, of 84 b 4 v] that(3) by auto
    show "peek (store cc') (unat x) (length kb) = kb"
      "peek (store cc') (unat x + 32) (length ms) = ms"
      "peek (store cc') (unat x + 80) 2 = br_enc16be (version params)"
      "peek (store cc') (unat x + 82) 2 = br_enc16be (cipher_suite params)"
      "peek (store cc') (unat x + 84) 4 = br_enc32be ADDR_NULL"
      "peek (store cc') (unat x + 88) 4 = br_enc32be (head cc)"
      using sx1 lens hN
      by (simp_all add: cc'_def fill_def links_def tl_def absr slot_pokeb0)
    show "peek (store cc') (unat x + 92) 4 = br_enc32be ADDR_NULL"
      "peek (store cc') (unat x + 96) 4 = br_enc32be ADDR_NULL"
      using sx1 lens hN
      by (simp_all add: cc'_def fill_def links_def tl_def absr slot_pokeb0 rel)
  qed
  have ent: "insert x E = entries cc" using bx by (auto simp: E_def entries_def)
  have "dlist_inv ADDR_NULL (insert x E) x (if head cc = ADDR_NULL then x else tail cc)
           ((if head cc = ADDR_NULL then prev_of cc else (prev_of cc)(head cc := x))(x := ADDR_NULL))
           ((next_of cc)(x := head cc))"
    using dlist_insert_new[OF core xE xN] .
  then have "dlist_inv ADDR_NULL (entries cc) (head cc') (tail cc') (prev_of cc') (next_of cc')"
    unfolding hdr ent
  proof (rule dlist_inv_cong)
    fix z assume "z \<in> entries cc"
    then have "unat z mod 100 = 0" by (auto simp: entries_def dest: below_aligned)
    from views[OF this]
    show "prev_of cc' z =
        ((if head cc = ADDR_NULL then prev_of cc else (prev_of cc)(head cc := x))(x := ADDR_NULL)) z \<and>
      next_of cc' z = ((next_of cc)(x := head cc)) z" by simp
  qed
  moreover have "tree_ok cc' (store_ptr cc)"
    unfolding tree_ok_def
  proof (intro conjI allI impI)
    have "null_or_below (store_ptr cc) (root cc)"
      using tree nle by (auto simp: tree_ok_def intro: null_or_below_mono)
    then show "null_or_below (store_ptr cc) (root cc')"
      using c1(3) bx by (auto simp: hdr null_or_below_def)
  next
    fix z assume z: "below (store_ptr cc) z"
    then have a: "unat z mod 100 = 0" by (rule below_aligned)
    show "null_or_below (store_ptr cc) (left_of cc' z)"
      "null_or_below (store_ptr cc) (right_of cc' z)"
    proof -
      have "null_or_below (store_ptr cc) (left_of cc' z) \<and>
            null_or_below (store_ptr cc) (right_of cc' z)"
      proof (cases "z = x")
        case True
        then show ?thesis using views[OF a] by (simp add: null_or_below_def)
      next
        case False
        then have "unat z \<noteq> unat x" by (simp add: word_unat_eq_iff)
        then have "below n z" using n(2) z below_next[OF n(1), of z] by auto
        then have "null_or_below n (left_of cc z)" "null_or_below n (right_of cc z)"
          using tree by (auto simp: tree_ok_def)
        then have "null_or_below (store_ptr cc) (left_of cc z)"
          "null_or_below (store_ptr cc) (right_of cc z)"
          using nle by (auto intro: null_or_below_mono)
        then show ?thesis using views[OF a] False c1(4)[rule_format, OF a] bx
          by (auto simp: null_or_below_def)
      qed
      then show "null_or_below (store_ptr cc) (left_of cc' z)"
        "null_or_below (store_ptr cc) (right_of cc' z)" by simp_all
    qed
  qed
  moreover have "slab_ok cc'" using slab hdr len by (simp add: slab_ok_def)
  moreover have "entries cc' = entries cc" by (simp add: entries_def hdr)
  ultimately have "lru_inv cc'" by (simp add: lru_inv_def hdr(1,6,7))
  then have "r = Inr cc' \<and> lru_inv cc' \<and>
           store_ptr cc' = store_ptr cc \<and> store_len cc' = store_len cc \<and>
           index_key cc' = index_key cc \<and> hash cc' = hash cc \<and>
           init_done cc' = init_done cc \<and> head cc' = x \<and>
           peek (store cc') (unat x) (length (take 32 idb)) = take 32 idb \<and>
           peek (store cc') (unat x + 32) (length (take 48 (master_secret params))) =
             take 48 (master_secret params) \<and>
           peek (store cc') (unat x + 80) 2 = br_enc16be (version params) \<and>
           peek (store cc') (unat x + 82) 2 = br_enc16be (cipher_suite params) \<and>
           peek (store cc') (unat x + 84) 4 = br_enc32be ADDR_NULL \<and>
           peek (store cc') (unat x + 88) 4 = br_enc32be (head cc) \<and>
           peek (store cc') (unat x + 92) 4 = br_enc32be ADDR_NULL \<and>
           peek (store cc') (unat x + 96) 4 = br_enc32be ADDR_NULL"
    using r hdr layout by (simp add: kb_def ms_def)
  then show ?thesis using frame by blast
qed

section \<open>The invariant of the cache\<close>

lemma lru_inv_key_update [simp]:
  "lru_inv (cc\<lparr>index_key := k, hash := h, init_done := d\<rparr>) = lru_inv cc"
  by (simp add: lru_inv_def slab_ok_def tree_ok_def entries_def)

lemma lru_save_init_inv: "lru_inv (fst (lru_save_init P cc sc)) = lru_inv cc"
  by (simp add: lru_save_init_def split: prod.splits)

lemma lru_save_init_ptr:
  "store_ptr (fst (lru_save_init P cc sc)) = store_ptr cc"
  "store_len (fst (lru_save_init P cc sc)) = store_len cc"
  by (simp_all add: lru_save_init_def split: prod.splits)

lemma lru_inv_init:
  assumes "length st = len" "len < 2 ^ 32"
  shows "lru_inv (br_ssl_session_cache_lru_init c st len)"
proof -
  have "entries (br_ssl_session_cache_lru_init c st len) = {}"
    by (simp add: entries_def br_ssl_session_cache_lru_init_def below_def)
  moreover have "dlist_inv ADDR_NULL {} ADDR_NULL ADDR_NULL f g" for f g :: "u32 \<Rightarrow> u32"
    by (simp add: dlist_inv_def dlist_core_def)
  ultimately show ?thesis using assms
    by (simp add: lru_inv_def slab_ok_def tree_ok_def null_or_below_def below_def
        br_ssl_session_cache_lru_init_def)
qed

lemma lru_save_inv:
  assumes inv: "lru_inv cc" and run: "lru_save P cc sc params = Some r"
  shows "\<exists>cc' sc'. r = Inr (cc', sc') \<and> lru_inv cc' \<and> store_ptr cc \<le> store_ptr cc' \<and>
           store_len cc' = store_len cc \<and>
           (if store_len cc < LRU_ENTRY_LEN then cc' = cc \<and> sc' = sc
            else index_key cc' = index_key (fst (lru_save_init P cc sc)) \<and>
                 hash cc' = hash (fst (lru_save_init P cc sc)) \<and> init_done cc' \<and>
                 sc' = snd (lru_save_init P cc sc))"
proof (cases "store_len cc < LRU_ENTRY_LEN")
  case True
  then show ?thesis using run inv by (simp add: lru_save_def)
next
  case False
  obtain cc0 sc0 where i: "lru_save_init P cc sc = (cc0, sc0)" by (cases "lru_save_init P cc sc")
  have inv0: "lru_inv cc0" using lru_save_init_inv[of P cc sc] inv i by simp
  have p0: "store_ptr cc0 = store_ptr cc" "store_len cc0 = store_len cc" "init_done cc0"
    using lru_save_init_ptr[of P cc sc] lru_save_init_fields(7)[of P cc sc] i by simp_all
  define idb where "idb = mask_id P cc0 (session_id params)"
  have run0: "and_then (find_node cc0 (Inr idb)) (\<lambda>(f, _).
              if f \<noteq> ADDR_NULL then returns (cc0, sc0)
              else
                and_then (lru_save_room cc0) (\<lambda>(cc, x).
                and_then (lru_save_link cc x idb params) (\<lambda>cc.
                returns (cc, sc0)))) = Some r"
    using run False i unfolding idb_def by (simp add: lru_save_def Let_def)
  have slab0: "slab_ok cc0" and tree0: "tree_ok cc0 (store_ptr cc0)"
    using inv0 by (simp_all add: lru_inv_def)
  from run0 obtain r1 where r1: "find_node cc0 (Inr idb) = Some r1"
    by (auto simp: and_then_eq_Some)
  from find_node_ok[OF r1 tree0] slab0 obtain f al where fa: "r1 = Inr (f, al)"
    by (auto simp: slab_ok_def offs)
  show ?thesis
  proof (cases "f = ADDR_NULL")
    case f: False
    then show ?thesis using run0 r1 fa inv0 p0 False i by simp
  next
    case f: True
    then have run1: "and_then (lru_save_room cc0) (\<lambda>(cc, x).
                and_then (lru_save_link cc x idb params) (\<lambda>cc.
                returns (cc, sc0))) = Some r"
      using run0 r1 fa by simp
    then obtain r2 where r2: "lru_save_room cc0 = Some r2" by (auto simp: and_then_eq_Some)
    from lru_save_room_ok[OF inv0 _ r2] False p0 obtain cc1 x n where
      m: "r2 = Inr (cc1, x)" "save_mid cc1 x n" "store_len cc1 = store_len cc0"
        "store_ptr cc0 \<le> store_ptr cc1" "index_key cc1 = index_key cc0"
        "hash cc1 = hash cc0" "init_done cc1 = init_done cc0"
      by auto
    from run1 r2 m(1) obtain r3 where r3: "lru_save_link cc1 x idb params = Some r3"
      by (auto simp: and_then_eq_Some)
    from lru_save_link_ok[OF m(2) r3] obtain cc2 where
      c2: "r3 = Inr cc2" "lru_inv cc2" "store_ptr cc2 = store_ptr cc1"
        "store_len cc2 = store_len cc1" "index_key cc2 = index_key cc1"
        "hash cc2 = hash cc1" "init_done cc2 = init_done cc1"
      by blast
    have "r = Inr (cc2, sc0)" using run1 r2 m(1) r3 c2(1) by simp
    then show ?thesis using c2 m p0 False i by simp
  qed
qed

lemma lru_load_inv:
  assumes inv: "lru_inv cc" and run: "lru_load P cc sc params = Some r"
  shows "\<exists>res cc' params'. r = Inr (res, cc', sc, params') \<and> lru_inv cc' \<and>
           store_ptr cc' = store_ptr cc \<and> store_len cc' = store_len cc \<and>
           index_key cc' = index_key cc \<and> hash cc' = hash cc \<and>
           init_done cc' = init_done cc"
proof (cases "init_done cc")
  case False
  then show ?thesis using run inv by (simp add: lru_load_def)
next
  case True
  define idb where "idb = mask_id P cc (session_id params)"
  have slab: "slab_ok cc" and tree: "tree_ok cc (store_ptr cc)"
    using inv by (simp_all add: lru_inv_def)
  from run True obtain r1 where r1: "find_node cc (Inr idb) = Some r1"
    by (auto simp: lru_load_def idb_def and_then_eq_Some Let_def)
  from find_node_ok[OF r1 tree] slab obtain x al where
    fa: "r1 = Inr (x, al)" "null_or_below (store_ptr cc) x"
    by (auto simp: slab_ok_def offs)
  show ?thesis
  proof (cases "x = ADDR_NULL")
    case x: True
    then show ?thesis using run True r1 fa inv
      by (simp add: lru_load_def idb_def[symmetric] Let_def)
  next
    case x: False
    then have bx: "below (store_ptr cc) x" using fa(2) by (simp add: null_or_below_def)
    then have xe: "x \<in> entries cc" by (simp add: entries_def)
    have sx: "unat x + 100 \<le> length (store cc)"
      using slab_ok_slot[OF slab bx] by (simp add: slot_def offs)
    from lru_load_move_inv[OF inv xe] obtain cc' where
      mv: "lru_load_move cc x = returns cc'" "lru_inv cc'" "store_ptr cc' = store_ptr cc"
        "store_len cc' = store_len cc" "index_key cc' = index_key cc" "hash cc' = hash cc"
        "init_done cc' = init_done cc"
      by blast
    have "\<exists>params'. r = Inr (1, cc', sc, params')"
      using run True r1 fa(1) x sx mv(1)
      by (simp add: lru_load_def idb_def[symmetric] load_bytes_def offs Let_def)
    then show ?thesis using mv by blast
  qed
qed

lemma reachable_inv: "reachable P cc \<Longrightarrow> lru_inv cc"
proof (induction rule: reachable.induct)
  case (init st len c)
  then show ?case by (rule lru_inv_init)
next
  case (save cc server_ctx params cc' server_ctx')
  from lru_save_inv[OF save.IH save.hyps(2)] show ?case by simp
next
  case (load cc server_ctx params res cc' server_ctx' params')
  from lru_load_inv[OF load.IH load.hyps(2)] show ?case by simp
qed

lemma lru_inv_alloc_inv:
  assumes "lru_inv cc"
  shows "alloc_inv cc"
proof -
  have slab: "slab_ok cc" and tree: "tree_ok cc (store_ptr cc)"
    and dl: "dlist_core ADDR_NULL (entries cc) (head cc) (tail cc) (prev_of cc) (next_of cc)"
    using assms by (simp_all add: lru_inv_def dlist_inv_def)
  have ok: "link_ok cc v \<longleftrightarrow> v = ADDR_NULL \<or> v \<in> entries cc" for v
    by (simp add: link_ok_def entries_def below_def offs null_numeral)
  have ht: "link_ok cc (head cc)" "link_ok cc (tail cc)"
    using dlist_core_ends[OF dl] by (simp_all add: ok)
  have rt: "link_ok cc (root cc)"
    using tree by (simp add: tree_ok_def ok null_or_below_def entries_def)
  have "link_ok cc (prev_of cc x) \<and> link_ok cc (next_of cc x) \<and>
        link_ok cc (left_of cc x) \<and> link_ok cc (right_of cc x)"
    if "unat x mod 100 = 0 \<and> unat x < store_ptr cc" for x
  proof -
    have b: "below (store_ptr cc) x" using that by (simp add: below_def offs)
    then have e: "x \<in> entries cc" by (simp add: entries_def)
    have "null_or_below (store_ptr cc) (left_of cc x)" "null_or_below (store_ptr cc) (right_of cc x)"
      using tree b by (auto simp: tree_ok_def)
    then show ?thesis using dlist_coreD(1,2)[OF dl e]
      by (simp add: ok null_or_below_def entries_def)
  qed
  then show ?thesis using slab ht rt by (simp add: alloc_inv_def slab_ok_def offs)
qed

section \<open>Masked IDs and comparisons\<close>

lemma br_hmac_out_take:
  "br_hmac_out P h key 32 msg = take 32 (hmac P h key msg)"
  by (simp add: br_hmac_out_def Let_def)

lemma mask_id_eq:
  "mask_id P cc src =
     take 32 (hmac P (hash cc) (index_key cc) (take 32 src)) @
     drop (min (length (hmac P (hash cc) (index_key cc) (take 32 src))) 32) (take 32 src)"
  by (simp add: mask_id_def Let_def br_hmac_out_take offs)

lemma mask_id_length: "32 \<le> length src \<Longrightarrow> length (mask_id P cc src) = 32"
  by (simp add: mask_id_eq)

lemma memcmp_range: "memcmp a b = - 1 \<or> memcmp a b = 0 \<or> memcmp a b = 1"
  by (induction a b rule: memcmp.induct) auto

lemma memcmp_eq: "length a = length b \<Longrightarrow> memcmp a b = 0 \<longleftrightarrow> a = b"
  by (induction a b rule: memcmp.induct) auto

lemma memcmp_less: "length a = length b \<Longrightarrow> memcmp a b < 0 \<longleftrightarrow> lex_less a b"
  unfolding lex_less_def
  by (induction a b rule: memcmp.induct) auto

lemma memcmp_swap: "memcmp a b = - memcmp b a"
proof (induction a arbitrary: b)
  case Nil
  then show ?case by (cases b) simp_all
next
  case (Cons x xs)
  then show ?case by (cases b) auto
qed

lemma memcmp_greater: "length a = length b \<Longrightarrow> memcmp a b > 0 \<longleftrightarrow> lex_less b a"
  using memcmp_less[of b a] memcmp_swap[of a b] by simp

section \<open>The key of an entry in the tree walk\<close>

lemma length_key_of: "slot cc x \<Longrightarrow> length (key_of cc x) = 32"
  by (simp add: key_of_def slot_def offs)

lemma find_node_loop_step:
  assumes "slot cc x" "x \<noteq> ADDR_NULL" "length idb = 32"
  shows "find_node_loop cc (Inr idb) x y =
           (if lex_less idb (key_of cc x) then
              find_node_loop cc (Inr idb) (left_of cc x) (x + 92)
            else if idb = key_of cc x then Some (Inr (x, y))
            else find_node_loop cc (Inr idb) (right_of cc x) (x + 96))"
proof -
  have k: "length (key_of cc x) = length idb" using assms by (simp add: length_key_of)
  have t: "take SESSION_ID_LEN idb = idb" using assms(3) by (simp add: offs)
  have mlt: "memcmp idb (key_of cc x) < 0 \<longleftrightarrow> lex_less idb (key_of cc x)"
    using k by (simp add: memcmp_less)
  have meq: "memcmp idb (key_of cc x) = 0 \<longleftrightarrow> idb = key_of cc x"
    using k by (simp add: memcmp_eq)
  have run: "find_node_loop cc (Inr idb) x y =
      (if memcmp idb (key_of cc x) < 0 then
         find_node_loop cc (Inr idb) (left_of cc x) (x + of_nat TREE_LEFT_OFF)
       else if memcmp idb (key_of cc x) = 0 then Some (Inr (x, y))
       else find_node_loop cc (Inr idb) (right_of cc x) (x + of_nat TREE_RIGHT_OFF))"
    by (subst find_node_loop.simps)
      (simp add: load_key_slot[OF assms(1)] get_left_slot[OF assms(1)]
        get_right_slot[OF assms(1)] t assms(2))
  consider (lt) "memcmp idb (key_of cc x) < 0" | (eq) "memcmp idb (key_of cc x) = 0"
    | (gt) "memcmp idb (key_of cc x) > 0"
    by linarith
  then show ?thesis
  proof cases
    case lt
    then have "lex_less idb (key_of cc x)" using mlt by simp
    then show ?thesis using run lt by (simp add: offs)
  next
    case eq
    then have "idb = key_of cc x" "\<not> lex_less idb (key_of cc x)"
      using meq mlt by simp_all
    then show ?thesis using run eq by simp
  next
    case gt
    then have "idb \<noteq> key_of cc x" "\<not> lex_less idb (key_of cc x)"
      using meq mlt by auto
    then show ?thesis using run gt by (simp add: offs)
  qed
qed

section \<open>The walk after a new entry is linked\<close>

lemma lex_less_irrefl: "\<not> lex_less a a"
  using memcmp_less[of a a] memcmp_eq[of a a] by simp

text \<open>
  \<open>cc\<close> is the cache in which the walk for \<open>idb\<close> ended with the link \<open>alx\<close>, and
  \<open>cc'\<close> the cache in which that link designates the entry \<open>x\<close>, whose key is \<open>idb\<close>,
  the other entries keeping their keys and links. A walk of \<open>cc\<close> that ends with
  \<open>alx\<close> corresponds, state by state, to a walk of \<open>cc'\<close> that ends at \<open>x\<close>.
\<close>

lemma find_node_loop_relinked:
  fixes cc cc' :: "'h br_ssl_session_cache_lru"
  assumes run: "find_node_loop cc (Inr idb) x0 y0 = Some (Inr (f, alx))"
    and tree: "tree_ok cc n" and n: "n mod 100 = 0" "n \<le> length (store cc)"
    and x0: "null_or_below n x0"
    and l: "length idb = 32"
    and sx: "slot cc' x" and key: "key_of cc' x = idb"
    and sl': "\<And>z. below n z \<Longrightarrow> slot cc' z"
    and frame: "\<And>z. below n z \<Longrightarrow> z \<noteq> x \<Longrightarrow>
       left_of cc' z = (if z + 92 = alx then x else left_of cc z) \<and>
       right_of cc' z = (if z + 96 = alx then x else right_of cc z) \<and>
       key_of cc' z = key_of cc z"
  shows "\<exists>al. find_node_loop cc' (Inr idb) (if y0 = alx then x else x0) y0 = Some (Inr (x, al))"
proof -
  have found: "find_node_loop cc' (Inr idb) x y = Some (Inr (x, y))" for y
    using find_node_loop_step[OF sx slot_not_null[OF sx] l, of y] key lex_less_irrefl[of idb]
    by simp
  have t: "take SESSION_ID_LEN idb = idb" using l by (simp add: offs)
  have "\<exists>al. find_node_loop cc' (Inr idb) (if b = alx then x else a) b = Some (Inr (x, al))"
    if "find_node_loop cc (Inr idb) a b = Some r" "r = Inr (f, alx)" "null_or_below n a"
    for a b r
    using that
  proof (induction rule: find_node_loop_induct)
    case (step g x0 y0 r)
    note r = step.prems(1) and nb = step.prems(2)
    show ?case
    proof -
      show "\<exists>al. find_node_loop cc' (Inr idb) (if y0 = alx then x else x0) y0 =
          Some (Inr (x, al))"
      proof (cases "y0 = alx")
        case True
        then show ?thesis using found by simp
      next
        case ny: False
        have nn: "x0 \<noteq> ADDR_NULL"
        proof
          assume "x0 = ADDR_NULL"
          then have "y0 = alx" using step.hyps r by simp
          then show False using ny by simp
        qed
        then have b: "below n x0" using nb by (simp add: null_or_below_def)
        have s0: "slot cc x0" using b n by (rule below_slot)
        have k32: "length (key_of cc x0) = length idb" using length_key_of[OF s0] l by simp
        have body: "(if memcmp idb (key_of cc x0) < 0 then
                       g (left_of cc x0) (x0 + of_nat TREE_LEFT_OFF)
                     else if memcmp idb (key_of cc x0) = 0 then Some (Inr (x0, y0))
                     else g (right_of cc x0) (x0 + of_nat TREE_RIGHT_OFF)) = Some r"
          using step.hyps nn
          by (simp add: load_key_slot[OF s0] get_left_slot[OF s0] get_right_slot[OF s0] t
              cong del: if_weak_cong)
        have ne: "memcmp idb (key_of cc x0) \<noteq> 0"
        proof
          assume "memcmp idb (key_of cc x0) = 0"
          then have "y0 = alx" using body r by simp
          then show False using ny by simp
        qed
        show ?thesis
        proof (cases "x0 = x")
          case True
          then show ?thesis using found ny by simp
        next
          case nx: False
          note fr = frame[OF b nx]
          have s0': "slot cc' x0" using b by (rule sl')
          note st = find_node_loop_step[OF s0' nn l, of y0]
          have tl: "null_or_below n (left_of cc x0)" "null_or_below n (right_of cc x0)"
            using tree b by (auto simp: tree_ok_def)
          have kne: "idb \<noteq> key_of cc x0" using ne memcmp_eq[OF k32[symmetric]] by auto
          show ?thesis
          proof (cases "memcmp idb (key_of cc x0) < 0")
            case True
            then have g: "g (left_of cc x0) (x0 + 92) = Some r" using body by (simp add: offs)
            from step.IH[OF g r tl(1)] obtain al where
              w: "find_node_loop cc' (Inr idb) (if x0 + 92 = alx then x else left_of cc x0)
                    (x0 + 92) = Some (Inr (x, al))"
              by blast
            have "lex_less idb (key_of cc x0)"
              using True memcmp_less[OF k32[symmetric]] by simp
            then show ?thesis using st fr w ny by auto
          next
            case False
            then have g: "g (right_of cc x0) (x0 + 96) = Some r"
              using body ne by (simp add: offs)
            from step.IH[OF g r tl(2)] obtain al where
              w: "find_node_loop cc' (Inr idb) (if x0 + 96 = alx then x else right_of cc x0)
                    (x0 + 96) = Some (Inr (x, al))"
              by blast
            have "\<not> lex_less idb (key_of cc x0)"
              using False memcmp_less[OF k32[symmetric]] by simp
            then show ?thesis using st fr w ny kne by auto
          qed
        qed
      qed
    qed
  qed
  from this[OF run refl x0] show ?thesis .
qed

lemma lru_save_link_finds:
  assumes mid: "save_mid cc x n" and run: "lru_save_link cc x idb params = Some r"
    and l: "length idb = 32"
  shows "\<exists>cc' al. r = Inr cc' \<and> find_node cc' (Inr idb) = Some (Inr (x, al))"
proof -
  have slab: "slab_ok cc" and bx: "below (store_ptr cc) x" and tree: "tree_ok cc n"
    and n: "n mod 100 = 0" "n = store_ptr cc \<or> (n + 100 = store_ptr cc \<and> unat x = n)"
    using mid by (simp_all add: save_mid_def offs)
  have sl: "length (store cc) = store_len cc" "store_ptr cc \<le> store_len cc"
    using slab by (simp_all add: slab_ok_def)
  have nle: "n \<le> store_ptr cc" using n(2) by auto
  then have nlen: "n \<le> length (store cc)" using sl by simp
  from run obtain r1 where r1: "find_node cc (Inr idb) = Some r1"
    by (auto simp: lru_save_link_def and_then_eq_Some)
  from find_node_ok[OF r1 tree n(1) nlen] obtain f alx where fa: "r1 = Inr (f, alx)" by blast
  have walk: "find_node_loop cc (Inr idb) (root cc) ADDR_NULL = Some (Inr (f, alx))"
    using r1 fa by (simp add: find_node_def)
  from lru_save_link_ok[OF mid run] obtain cc' where
    c: "r = Inr cc'" "lru_inv cc'" "store_ptr cc' = store_ptr cc"
      "peek (store cc') (unat x) (length (take 32 idb)) = take 32 idb"
      "\<forall>f alx. find_node cc (Inr idb) = Some (Inr (f, alx)) \<longrightarrow>
              root cc' = (if alx = ADDR_NULL then x else root cc) \<and>
              (\<forall>z. below n z \<and> z \<noteq> x \<longrightarrow>
                 left_of cc' z = (if z + 92 = alx then x else left_of cc z) \<and>
                 right_of cc' z = (if z + 96 = alx then x else right_of cc z) \<and>
                 key_of cc' z = key_of cc z)"
    by blast
  from c(5) r1 fa have root: "root cc' = (if alx = ADDR_NULL then x else root cc)"
    and frame: "\<And>z. below n z \<Longrightarrow> z \<noteq> x \<Longrightarrow>
       left_of cc' z = (if z + 92 = alx then x else left_of cc z) \<and>
       right_of cc' z = (if z + 96 = alx then x else right_of cc z) \<and>
       key_of cc' z = key_of cc z"
    by auto
  have slab': "slab_ok cc'" using c(2) by (simp add: lru_inv_def)
  have sx: "slot cc' x" using slab' bx c(3) by (auto intro: slab_ok_slot)
  have key: "key_of cc' x = idb" using c(4) l by (simp add: key_of_def offs)
  have sl': "slot cc' z" if "below n z" for z
  proof -
    have "below (store_ptr cc') z" using that nle c(3) by (simp add: below_def)
    then show ?thesis using slab' by (auto intro: slab_ok_slot)
  qed
  have r0: "null_or_below n (root cc)" using tree by (simp add: tree_ok_def)
  from find_node_loop_relinked[OF walk tree n(1) nlen r0 l sx key sl' frame]
  obtain al where "find_node_loop cc' (Inr idb) (if ADDR_NULL = alx then x else root cc)
      ADDR_NULL = Some (Inr (x, al))"
    by blast
  then have "find_node cc' (Inr idb) = Some (Inr (x, al))"
    unfolding find_node_def root by (simp add: eq_commute[of ADDR_NULL alx])
  then show ?thesis using c(1) by blast
qed

section \<open>A save that inserts\<close>

lemma peek_100:
  "peek st a 100 =
     peek st a 32 @ peek st (a + 32) 48 @ peek st (a + 80) 2 @ peek st (a + 82) 2 @
     peek st (a + 84) 4 @ peek st (a + 88) 4 @ peek st (a + 92) 4 @ peek st (a + 96) 4"
proof -
  have "peek st a 100 = peek st a (32 + (48 + (2 + (2 + (4 + (4 + (4 + 4)))))))" by simp
  also have "\<dots> = peek st a 32 @ peek st (a + 32) 48 @ peek st (a + 80) 2 @ peek st (a + 82) 2 @
     peek st (a + 84) 4 @ peek st (a + 88) 4 @ peek st (a + 92) 4 @ peek st (a + 96) 4"
    unfolding peek_add by (simp add: ac_simps)
  finally show ?thesis .
qed

lemma lru_save_inserts:
  assumes inv: "lru_inv cc" and run: "lru_save P cc sc params = Some r"
    and len: "LRU_ENTRY_LEN \<le> store_len cc"
    and i: "lru_save_init P cc sc = (cc0, sc0)"
    and nf: "find_node cc0 (Inr (mask_id P cc0 (session_id params))) = Some (Inr (ADDR_NULL, al))"
    and ok: "params_ok params"
  shows "\<exists>cc' nx. r = Inr (cc', sc0) \<and> lru_inv cc' \<and> index_key cc' = index_key cc0 \<and>
           hash cc' = hash cc0 \<and> init_done cc' \<and> head cc' \<in> entries cc' \<and>
           (nx = ADDR_NULL \<or> nx \<in> entries cc') \<and>
           peek (store cc') (unat (head cc')) 100 =
             entry_bytes (mask_id P cc0 (session_id params)) (master_secret params)
               (version params) (cipher_suite params) ADDR_NULL nx ADDR_NULL ADDR_NULL \<and>
           key_of cc' (head cc') = mask_id P cc0 (session_id params) \<and>
           prev_of cc' (head cc') = ADDR_NULL \<and> next_of cc' (head cc') = nx \<and>
           left_of cc' (head cc') = ADDR_NULL \<and> right_of cc' (head cc') = ADDR_NULL \<and>
           (\<exists>al'. find_node cc' (Inr (mask_id P cc0 (session_id params))) =
              Some (Inr (head cc', al'))) \<and>
           peek (store cc') (unat (head cc') + 32) 48 = master_secret params \<and>
           peek (store cc') (unat (head cc') + 80) 2 = br_enc16be (version params) \<and>
           peek (store cc') (unat (head cc') + 82) 2 = br_enc16be (cipher_suite params)"
proof -
  define idb where "idb = mask_id P cc0 (session_id params)"
  have inv0: "lru_inv cc0" using lru_save_init_inv[of P cc sc] inv i by simp
  have p0: "store_ptr cc0 = store_ptr cc" "store_len cc0 = store_len cc" "init_done cc0"
    using lru_save_init_ptr[of P cc sc] lru_save_init_fields(7)[of P cc sc] i by simp_all
  have run1: "and_then (lru_save_room cc0) (\<lambda>(cc, x).
                and_then (lru_save_link cc x idb params) (\<lambda>cc.
                returns (cc, sc0))) = Some r"
    using run len i nf unfolding idb_def by (simp add: lru_save_def Let_def)
  then obtain r2 where r2: "lru_save_room cc0 = Some r2" by (auto simp: and_then_eq_Some)
  from lru_save_room_ok[OF inv0 _ r2] len p0 obtain cc1 x n where
    m: "r2 = Inr (cc1, x)" "save_mid cc1 x n" "index_key cc1 = index_key cc0"
      "hash cc1 = hash cc0" "init_done cc1 = init_done cc0"
    by auto
  from run1 r2 m(1) obtain r3 where r3: "lru_save_link cc1 x idb params = Some r3"
    by (auto simp: and_then_eq_Some)
  have l32: "length idb = 32" and l48: "length (master_secret params) = 48"
    using ok by (simp_all add: idb_def mask_id_length params_ok_def offs)
  from lru_save_link_ok[OF m(2) r3] l32 l48 obtain cc2 where
    c2: "r3 = Inr cc2" "lru_inv cc2" "store_ptr cc2 = store_ptr cc1"
      "index_key cc2 = index_key cc1" "hash cc2 = hash cc1" "init_done cc2 = init_done cc1"
      "head cc2 = x"
      "peek (store cc2) (unat x) 32 = idb"
      "peek (store cc2) (unat x + 32) 48 = master_secret params"
      "peek (store cc2) (unat x + 80) 2 = br_enc16be (version params)"
      "peek (store cc2) (unat x + 82) 2 = br_enc16be (cipher_suite params)"
      "peek (store cc2) (unat x + 84) 4 = br_enc32be ADDR_NULL"
      "peek (store cc2) (unat x + 88) 4 = br_enc32be (head cc1)"
      "peek (store cc2) (unat x + 92) 4 = br_enc32be ADDR_NULL"
      "peek (store cc2) (unat x + 96) 4 = br_enc32be ADDR_NULL"
    by auto
  have r: "r = Inr (cc2, sc0)" using run1 r2 m(1) r3 c2(1) by simp
  from lru_save_link_finds[OF m(2) r3 l32] c2(1,7)
  have fnd: "\<exists>al'. find_node cc2 (Inr idb) = Some (Inr (head cc2, al'))" by auto
  have xe: "x \<in> entries cc2" using m(2) c2(3) by (simp add: save_mid_def entries_def)
  have "dlist_core ADDR_NULL (entries cc1 - {x}) (head cc1) (tail cc1) (prev_of cc1) (next_of cc1)"
    using m(2) by (simp add: save_mid_def)
  from dlist_core_ends(2)[OF this]
  have "head cc1 = ADDR_NULL \<or> head cc1 \<in> entries cc1 - {x}" .
  then have hd: "head cc1 = ADDR_NULL \<or> head cc1 \<in> entries cc2"
    using c2(3) by (auto simp: entries_def)
  have "peek (store cc2) (unat (head cc2)) 100 =
      entry_bytes idb (master_secret params) (version params) (cipher_suite params)
        ADDR_NULL (head cc1) ADDR_NULL ADDR_NULL"
    unfolding c2(7) peek_100 entry_bytes_def using c2(8-15) by simp
  moreover have "key_of cc2 (head cc2) = idb" "prev_of cc2 (head cc2) = ADDR_NULL"
    "next_of cc2 (head cc2) = head cc1" "left_of cc2 (head cc2) = ADDR_NULL"
    "right_of cc2 (head cc2) = ADDR_NULL"
    unfolding c2(7) using c2(8,12-15)
    by (simp_all add: key_of_def prev_of_def next_of_def left_of_def right_of_def fld_def offs)
  ultimately have "r = Inr (cc2, sc0) \<and> lru_inv cc2 \<and> index_key cc2 = index_key cc0 \<and>
           hash cc2 = hash cc0 \<and> init_done cc2 \<and> head cc2 \<in> entries cc2 \<and>
           (head cc1 = ADDR_NULL \<or> head cc1 \<in> entries cc2) \<and>
           peek (store cc2) (unat (head cc2)) 100 =
             entry_bytes idb (master_secret params)
               (version params) (cipher_suite params) ADDR_NULL (head cc1) ADDR_NULL ADDR_NULL \<and>
           key_of cc2 (head cc2) = idb \<and>
           prev_of cc2 (head cc2) = ADDR_NULL \<and> next_of cc2 (head cc2) = head cc1 \<and>
           left_of cc2 (head cc2) = ADDR_NULL \<and> right_of cc2 (head cc2) = ADDR_NULL"
    using r c2(2,4,5,6,7) m(3,4,5) p0(3) xe hd by auto
  moreover have "peek (store cc2) (unat (head cc2) + 32) 48 = master_secret params \<and>
           peek (store cc2) (unat (head cc2) + 80) 2 = br_enc16be (version params) \<and>
           peek (store cc2) (unat (head cc2) + 82) 2 = br_enc16be (cipher_suite params)"
    unfolding c2(7) using c2(9-11) by simp
  ultimately show ?thesis using fnd unfolding idb_def by blast
qed

text \<open>
  The part of \<open>lru_save\<close> after the tree walk is straight-line code: once
  \<open>find_node\<close> has returned, \<open>lru_save_link\<close> returns or faults.
\<close>

lemma lru_save_link_returns:
  assumes "find_node cc (Inr idb) = Some (Inr (f, al))"
  shows "\<exists>r. lru_save_link cc x idb params = Some r"
  using assms
  by (auto simp: lru_save_link_def and_then_def lift_def returns_def Let_def
      split: sum.splits option.splits)

lemma lru_save_fresh:
  assumes inv: "lru_inv cc" and root: "root cc = ADDR_NULL"
    and fit: "store_ptr cc + LRU_ENTRY_LEN \<le> store_len cc"
  shows "\<exists>cc' sc'. lru_save P cc sc params = Some (Inr (cc', sc'))"
proof -
  obtain cc0 sc0 where i: "lru_save_init P cc sc = (cc0, sc0)" by (cases "lru_save_init P cc sc")
  have f0: "root cc0 = ADDR_NULL" "store_ptr cc0 = store_ptr cc" "store_len cc0 = store_len cc"
    using lru_save_init_fields[of P cc sc] i root by simp_all
  define idb where "idb = mask_id P cc0 (session_id params)"
  define cc1 where "cc1 = cc0\<lparr>store_ptr := store_ptr cc0 + LRU_ENTRY_LEN\<rparr>"
  have "\<not> store_len cc0 - LRU_ENTRY_LEN < store_ptr cc0" using fit f0 by linarith
  then have room: "lru_save_room cc0 = returns (cc1, of_nat (store_ptr cc0))"
    by (simp add: lru_save_room_def cc1_def Let_def)
  have "root cc1 = ADDR_NULL" using f0 by (simp add: cc1_def)
  then have "find_node cc1 (Inr idb) = Some (Inr (ADDR_NULL, ADDR_NULL))"
    by (simp add: find_node_empty returns_def)
  from lru_save_link_returns[OF this] obtain r3 where
    r3: "lru_save_link cc1 (of_nat (store_ptr cc0)) idb params = Some r3" by blast
  have "lru_save P cc sc params =
      and_then (lru_save_link cc1 (of_nat (store_ptr cc0)) idb params) (\<lambda>cc. returns (cc, sc0))"
    using fit i f0 room unfolding idb_def
    by (simp add: lru_save_def Let_def find_node_empty)
  then obtain r where r: "lru_save P cc sc params = Some r"
    using r3 by (cases r3) (auto simp: returns_def)
  from lru_save_inv[OF inv r] show ?thesis using r by auto
qed

section \<open>A load that returns\<close>

lemma lru_load_result:
  assumes inv: "lru_inv cc" and init: "init_done cc" and ok: "params_ok params"
    and run: "lru_load P cc sc params = Some (Inr (res, cc', sc', params'))"
  shows "(res = 0 \<and> cc' = cc \<and> params' = params \<and>
          (\<exists>al. find_node cc (Inr (mask_id P cc (session_id params))) = Some (Inr (ADDR_NULL, al)))) \<or>
         (res = 1 \<and> head cc' \<in> entries cc \<and>
          key_of cc (head cc') = mask_id P cc (session_id params) \<and>
          version params' = br_dec16be (peek (store cc) (unat (head cc') + 80) 2) \<and>
          cipher_suite params' = br_dec16be (peek (store cc) (unat (head cc') + 82) 2) \<and>
          master_secret params' = peek (store cc) (unat (head cc') + 32) 48 \<and>
          session_id params' = session_id params)"
proof -
  define idb where "idb = mask_id P cc (session_id params)"
  have l32: "length idb = 32" using ok by (simp add: idb_def mask_id_length params_ok_def offs)
  have slab: "slab_ok cc" and tree: "tree_ok cc (store_ptr cc)"
    using inv by (simp_all add: lru_inv_def)
  from run init obtain r1 where r1: "find_node cc (Inr idb) = Some r1"
    by (auto simp: lru_load_def idb_def and_then_eq_Some Let_def)
  from find_node_ok[OF r1 tree] slab obtain x al where
    fa: "r1 = Inr (x, al)" "null_or_below (store_ptr cc) x"
      "x \<noteq> ADDR_NULL \<longrightarrow> memcmp (take SESSION_ID_LEN idb) (key_of cc x) = 0"
    by (auto simp: slab_ok_def offs)
  show ?thesis
  proof (cases "x = ADDR_NULL")
    case x: True
    then show ?thesis using run init r1 fa
      by (auto simp add: lru_load_def idb_def[symmetric] Let_def)
  next
    case x: False
    then have bx: "below (store_ptr cc) x" using fa(2) by (simp add: null_or_below_def)
    then have xe: "x \<in> entries cc" by (simp add: entries_def)
    have sx: "unat x + 100 \<le> length (store cc)"
      using slab_ok_slot[OF slab bx] by (simp add: slot_def offs)
    have "length (key_of cc x) = 32" using sx by (simp add: key_of_def offs)
    then have key: "key_of cc x = idb"
      using fa(3) x l32 memcmp_eq[of idb "key_of cc x"] by (simp add: offs)
    from lru_load_move_inv[OF inv xe] obtain c2 where
      mv: "lru_load_move cc x = returns c2" "head c2 = x"
      by blast
    have "res = 1 \<and> cc' = c2 \<and>
        params' = params\<lparr>version := br_dec16be (peek (store cc) (unat x + 80) 2),
          cipher_suite := br_dec16be (peek (store cc) (unat x + 82) 2),
          master_secret := peek (store cc) (unat x + 32) 48\<rparr>"
      using run init r1 fa(1) x sx mv(1)
      by (simp add: lru_load_def idb_def[symmetric] load_bytes_def offs Let_def)
    then show ?thesis using mv(2) xe key by (simp add: idb_def)
  qed
qed

text \<open>
  A load of an ID whose masked form the walk finds returns 1, with the version, the cipher
  suite and the master secret of the entry found, which it makes the head of the list.
\<close>

lemma lru_load_found:
  assumes inv: "lru_inv cc" and init: "init_done cc"
    and f: "find_node cc (Inr (mask_id P cc (session_id params))) = Some (Inr (x, al))"
    and x: "x \<in> entries cc"
  shows "\<exists>cc'. lru_load P cc sc params =
           Some (Inr (1, cc', sc,
             params\<lparr>version := br_dec16be (peek (store cc) (unat x + 80) 2),
               cipher_suite := br_dec16be (peek (store cc) (unat x + 82) 2),
               master_secret := peek (store cc) (unat x + 32) 48\<rparr>)) \<and>
           lru_inv cc' \<and> head cc' = x"
proof -
  have slab: "slab_ok cc" using inv by (simp add: lru_inv_def)
  have bx: "below (store_ptr cc) x" using x by (simp add: entries_def)
  have nn: "x \<noteq> ADDR_NULL" using bx by (rule below_not_null)
  have sx: "unat x + 100 \<le> length (store cc)"
    using slab_ok_slot[OF slab bx] by (simp add: slot_def offs)
  from lru_load_move_inv[OF inv x] obtain c2 where
    mv: "lru_load_move cc x = returns c2" "head c2 = x" "lru_inv c2"
    by blast
  have "lru_load P cc sc params =
           Some (Inr (1, c2, sc,
             params\<lparr>version := br_dec16be (peek (store cc) (unat x + 80) 2),
               cipher_suite := br_dec16be (peek (store cc) (unat x + 82) 2),
               master_secret := peek (store cc) (unat x + 32) 48\<rparr>))"
    using init f nn sx mv(1)
    by (simp add: lru_load_def load_bytes_def offs Let_def returns_def)
  then show ?thesis using mv(2,3) by blast
qed

section \<open>Saves that meet the key, and saves that store it\<close>

lemma lru_save_collision:
  assumes inv: "lru_inv cc" and len: "LRU_ENTRY_LEN \<le> store_len cc"
    and i: "lru_save_init P cc sc = (cc0, sc0)"
    and f: "find_node cc0 (Inr (mask_id P cc0 (session_id params))) = Some (Inr (x, al))"
    and x: "x \<noteq> ADDR_NULL"
  shows "lru_save P cc sc params = returns (cc0, sc0)"
  using len i f x by (simp add: lru_save_def Let_def)

lemma lru_save_init_store:
  "lru_save_init P cc sc = (cc0, sc0) \<Longrightarrow>
     store cc0 = store cc \<and> store_ptr cc0 = store_ptr cc \<and> head cc0 = head cc \<and>
     tail cc0 = tail cc \<and> root cc0 = root cc \<and> store_len cc0 = store_len cc"
  by (auto simp: lru_save_init_def split: if_splits prod.splits)

lemma lru_save_keyed:
  assumes inv: "lru_inv cc" and len: "LRU_ENTRY_LEN \<le> store_len cc"
    and i: "lru_save_init P cc sc = (cc0, sc0)"
    and run: "lru_save P cc sc params = Some r"
    and ok: "params_ok params"
  shows "\<exists>cc'. r = Inr (cc', sc0) \<and>
           ((\<exists>x. x \<in> entries cc \<and> key_of cc x = mask_id P cc0 (session_id params) \<and> cc' = cc0) \<or>
            (head cc' \<in> entries cc' \<and> key_of cc' (head cc') = mask_id P cc0 (session_id params)))"
proof -
  define idb where "idb = mask_id P cc0 (session_id params)"
  have inv0: "lru_inv cc0" using lru_save_init_inv[of P cc sc] inv i by simp
  have l32: "length idb = 32" using ok by (simp add: idb_def mask_id_length params_ok_def offs)
  have s0: "store cc0 = store cc" "store_ptr cc0 = store_ptr cc"
    using lru_save_init_store[OF i] by simp_all
  have slab: "slab_ok cc0" and tree: "tree_ok cc0 (store_ptr cc0)"
    using inv0 by (simp_all add: lru_inv_def)
  from run len i obtain r1 where r1: "find_node cc0 (Inr idb) = Some r1"
    by (auto simp: lru_save_def idb_def and_then_eq_Some Let_def)
  from find_node_ok[OF r1 tree] slab obtain x al where
    fa: "r1 = Inr (x, al)" "null_or_below (store_ptr cc0) x"
      "x \<noteq> ADDR_NULL \<longrightarrow> memcmp (take SESSION_ID_LEN idb) (key_of cc0 x) = 0"
    by (auto simp: slab_ok_def offs)
  show ?thesis
  proof (cases "x = ADDR_NULL")
    case True
    from lru_save_inserts[OF inv run len i _ ok, of al] r1 fa(1) True
    show ?thesis unfolding idb_def by blast
  next
    case False
    then have bx: "below (store_ptr cc0) x" using fa(2) by (simp add: null_or_below_def)
    have sl: "slot cc0 x" using slab bx by (rule slab_ok_slot)
    have "memcmp idb (key_of cc0 x) = 0" using fa(3) False l32 by (simp add: offs)
    then have k: "key_of cc0 x = idb"
      using memcmp_eq[of idb "key_of cc0 x"] l32 length_key_of[OF sl] by simp
    have k': "key_of cc x = idb" using k s0 by (simp add: key_of_def)
    have "lru_save P cc sc params = returns (cc0, sc0)"
      using lru_save_collision[OF inv len i _ False, of params al] r1 fa(1)
      unfolding idb_def by simp
    then have "r = Inr (cc0, sc0)" using run by (simp add: returns_def)
    moreover have "x \<in> entries cc" using bx s0 by (simp add: entries_def)
    ultimately show ?thesis using k' unfolding idb_def by blast
  qed
qed

lemma mask_id_cong:
  "index_key a = index_key b \<Longrightarrow> hash a = hash b \<Longrightarrow> mask_id P a src = mask_id P b src"
  by (simp add: mask_id_def)

text \<open>
  Every save that returns on a slab with room for an entry leaves the masked ID in the
  tree: the walk for it from the root ends at an entry that holds it, and a load of the
  same session ID returns 1. When the save has inserted, that entry is the new head and
  the load gives back what was saved.
\<close>

lemma lru_save_stores:
  assumes inv: "lru_inv cc" and len: "LRU_ENTRY_LEN \<le> store_len cc"
    and i: "lru_save_init P cc sc = (cc0, sc0)"
    and run: "lru_save P cc sc params = Some r"
    and ok: "params_ok params"
  shows "\<exists>cc' y al. r = Inr (cc', sc0) \<and> lru_inv cc' \<and> init_done cc' \<and>
           y \<in> entries cc' \<and>
           mask_id P cc' (session_id params) = mask_id P cc0 (session_id params) \<and>
           key_of cc' y = mask_id P cc' (session_id params) \<and>
           find_node cc' (Inr (mask_id P cc' (session_id params))) = Some (Inr (y, al)) \<and>
           ((\<exists>x al0. x \<noteq> ADDR_NULL \<and>
               find_node cc0 (Inr (mask_id P cc0 (session_id params))) = Some (Inr (x, al0))) \<longrightarrow>
              cc' = cc0) \<and>
           ((\<exists>al0. find_node cc0 (Inr (mask_id P cc0 (session_id params))) =
               Some (Inr (ADDR_NULL, al0))) \<longrightarrow>
              y = head cc' \<and>
              peek (store cc') (unat y + 32) 48 = master_secret params \<and>
              peek (store cc') (unat y + 80) 2 = br_enc16be (version params) \<and>
              peek (store cc') (unat y + 82) 2 = br_enc16be (cipher_suite params))"
proof -
  define idb where "idb = mask_id P cc0 (session_id params)"
  have inv0: "lru_inv cc0" using lru_save_init_inv[of P cc sc] inv i by simp
  have init0: "init_done cc0" using lru_save_init_fields(7)[of P cc sc] i by simp
  have l32: "length idb = 32" using ok by (simp add: idb_def mask_id_length params_ok_def offs)
  have slab: "slab_ok cc0" and tree: "tree_ok cc0 (store_ptr cc0)"
    using inv0 by (simp_all add: lru_inv_def)
  from run len i obtain r1 where r1: "find_node cc0 (Inr idb) = Some r1"
    by (auto simp: lru_save_def idb_def and_then_eq_Some Let_def)
  from find_node_ok[OF r1 tree] slab obtain x al where
    fa: "r1 = Inr (x, al)" "null_or_below (store_ptr cc0) x"
      "x \<noteq> ADDR_NULL \<longrightarrow> memcmp (take SESSION_ID_LEN idb) (key_of cc0 x) = 0"
    by (auto simp: slab_ok_def offs)
  show ?thesis
  proof (cases "x = ADDR_NULL")
    case True
    from lru_save_inserts[OF inv run len i _ ok, of al] r1 fa(1) True
    obtain cc' al' where
      c: "r = Inr (cc', sc0)" "lru_inv cc'" "index_key cc' = index_key cc0"
        "hash cc' = hash cc0" "init_done cc'" "head cc' \<in> entries cc'"
        "key_of cc' (head cc') = idb"
        "find_node cc' (Inr idb) = Some (Inr (head cc', al'))"
        "peek (store cc') (unat (head cc') + 32) 48 = master_secret params"
        "peek (store cc') (unat (head cc') + 80) 2 = br_enc16be (version params)"
        "peek (store cc') (unat (head cc') + 82) 2 = br_enc16be (cipher_suite params)"
      unfolding idb_def by blast
    have m: "mask_id P cc' (session_id params) = idb"
      unfolding idb_def using c(3,4) by (rule mask_id_cong)
    have no: "(\<exists>x al0. x \<noteq> ADDR_NULL \<and> find_node cc0 (Inr idb) = Some (Inr (x, al0))) = False"
      using r1 fa(1) True by simp
    have "r = Inr (cc', sc0) \<and> lru_inv cc' \<and> init_done cc' \<and>
           head cc' \<in> entries cc' \<and>
           mask_id P cc' (session_id params) = idb \<and>
           key_of cc' (head cc') = mask_id P cc' (session_id params) \<and>
           find_node cc' (Inr (mask_id P cc' (session_id params))) = Some (Inr (head cc', al')) \<and>
           ((\<exists>x al0. x \<noteq> ADDR_NULL \<and>
               find_node cc0 (Inr idb) = Some (Inr (x, al0))) \<longrightarrow>
              cc' = cc0) \<and>
           ((\<exists>al0. find_node cc0 (Inr idb) = Some (Inr (ADDR_NULL, al0))) \<longrightarrow>
              head cc' = head cc' \<and>
              peek (store cc') (unat (head cc') + 32) 48 = master_secret params \<and>
              peek (store cc') (unat (head cc') + 80) 2 = br_enc16be (version params) \<and>
              peek (store cc') (unat (head cc') + 82) 2 = br_enc16be (cipher_suite params))"
      unfolding no m using c by simp
    then show ?thesis unfolding idb_def by (intro exI)
  next
    case False
    then have bx: "below (store_ptr cc0) x" using fa(2) by (simp add: null_or_below_def)
    have sl: "slot cc0 x" using slab bx by (rule slab_ok_slot)
    have "memcmp idb (key_of cc0 x) = 0" using fa(3) False l32 by (simp add: offs)
    then have k: "key_of cc0 x = idb"
      using memcmp_eq[of idb "key_of cc0 x"] l32 length_key_of[OF sl] by simp
    have "lru_save P cc sc params = returns (cc0, sc0)"
      using lru_save_collision[OF inv len i _ False, of params al] r1 fa(1)
      unfolding idb_def by simp
    then have r: "r = Inr (cc0, sc0)" using run by (simp add: returns_def)
    have xe: "x \<in> entries cc0" using bx by (simp add: entries_def)
    have no: "(\<exists>al0. find_node cc0 (Inr idb) = Some (Inr (ADDR_NULL, al0))) = False"
      using r1 fa(1) False by simp
    have f: "find_node cc0 (Inr idb) = Some (Inr (x, al))" using r1 fa(1) by simp
    have "r = Inr (cc0, sc0) \<and> lru_inv cc0 \<and> init_done cc0 \<and>
           x \<in> entries cc0 \<and>
           mask_id P cc0 (session_id params) = idb \<and>
           key_of cc0 x = mask_id P cc0 (session_id params) \<and>
           find_node cc0 (Inr (mask_id P cc0 (session_id params))) = Some (Inr (x, al)) \<and>
           ((\<exists>x al0. x \<noteq> ADDR_NULL \<and>
               find_node cc0 (Inr idb) = Some (Inr (x, al0))) \<longrightarrow>
              cc0 = cc0) \<and>
           ((\<exists>al0. find_node cc0 (Inr idb) = Some (Inr (ADDR_NULL, al0))) \<longrightarrow>
              x = head cc0 \<and>
              peek (store cc0) (unat x + 32) 48 = master_secret params \<and>
              peek (store cc0) (unat x + 80) 2 = br_enc16be (version params) \<and>
              peek (store cc0) (unat x + 82) 2 = br_enc16be (cipher_suite params))"
      unfolding no idb_def[symmetric] using r inv0 init0 xe k f by simp
    then show ?thesis unfolding idb_def by (intro exI)
  qed
qed

lemma lru_save_then_load:
  assumes inv: "lru_inv cc" and len: "LRU_ENTRY_LEN \<le> store_len cc"
    and i: "lru_save_init P cc sc = (cc0, sc0)"
    and run: "lru_save P cc sc params = Some (Inr (cc', sc'))"
    and ok: "params_ok params" and q: "session_id q = session_id params"
  shows "\<exists>cc2 q'. lru_load P cc' sc' q = Some (Inr (1, cc2, sc', q')) \<and>
           key_of cc' (head cc2) = mask_id P cc' (session_id params) \<and>
           ((\<exists>al0. find_node cc0 (Inr (mask_id P cc0 (session_id params))) =
               Some (Inr (ADDR_NULL, al0))) \<longrightarrow>
              q' = q\<lparr>version := version params, cipher_suite := cipher_suite params,
                     master_secret := master_secret params\<rparr>)"
proof -
  from lru_save_stores[OF inv len i run ok] obtain y al where
    s: "lru_inv cc'" "init_done cc'" "y \<in> entries cc'"
      "key_of cc' y = mask_id P cc' (session_id params)"
      "find_node cc' (Inr (mask_id P cc' (session_id params))) = Some (Inr (y, al))"
      "(\<exists>al0. find_node cc0 (Inr (mask_id P cc0 (session_id params))) =
               Some (Inr (ADDR_NULL, al0))) \<longrightarrow>
              peek (store cc') (unat y + 32) 48 = master_secret params \<and>
              peek (store cc') (unat y + 80) 2 = br_enc16be (version params) \<and>
              peek (store cc') (unat y + 82) 2 = br_enc16be (cipher_suite params)"
    by auto
  from lru_load_found[OF s(1,2) s(5)[folded q] s(3), of sc'] obtain cc2 where
    l: "lru_load P cc' sc' q =
           Some (Inr (1, cc2, sc',
             q\<lparr>version := br_dec16be (peek (store cc') (unat y + 80) 2),
               cipher_suite := br_dec16be (peek (store cc') (unat y + 82) 2),
               master_secret := peek (store cc') (unat y + 32) 48\<rparr>))"
      "head cc2 = y"
    by blast
  show ?thesis using l s(4,6) by (auto simp: dec_enc16)
qed

section \<open>Fresh caches\<close>

lemma demo_cache_reachable: "n < 2 ^ 32 \<Longrightarrow> reachable P (demo_cache n)"
  unfolding demo_cache_def by (rule reachable.init) simp_all

lemma demo_cache_fields:
  "store_len (demo_cache n) = n" "store_ptr (demo_cache n) = 0" "root (demo_cache n) = ADDR_NULL"
  "head (demo_cache n) = ADDR_NULL" "\<not> init_done (demo_cache n)"
  "store (demo_cache n) = replicate n 0"
  by (simp_all add: demo_cache_def br_ssl_session_cache_lru_init_def)

section \<open>A slab of three entries, step by step\<close>

text \<open>
  Eight saves with the IDs 0, 2, 1, 4, 3, 5, 7, 6 on a slab of 300 bytes. Each lemma is
  one call, evaluated on the state the previous one returned.
\<close>

lemma three_save_0:
  "lru_save demo_primitives (demo_cache 300) demo_server (demo_session 0) =
     returns (demo_state (demo_entry 0 ADDR_NULL ADDR_NULL ADDR_NULL ADDR_NULL @ replicate 200 0)
                100 0 0 0, demo_server_used)"
  by code_simp

lemma three_save_2:
  "lru_save demo_primitives
     (demo_state (demo_entry 0 ADDR_NULL ADDR_NULL ADDR_NULL ADDR_NULL @ replicate 200 0)
        100 0 0 0) demo_server_used (demo_session 2) =
     returns (demo_state (demo_entry 0 100 ADDR_NULL ADDR_NULL 100 @
                          demo_entry 2 ADDR_NULL 0 ADDR_NULL ADDR_NULL @ replicate 100 0)
                200 100 0 0, demo_server_used)"
  by code_simp

lemma three_save_1:
  "lru_save demo_primitives
     (demo_state (demo_entry 0 100 ADDR_NULL ADDR_NULL 100 @
                  demo_entry 2 ADDR_NULL 0 ADDR_NULL ADDR_NULL @ replicate 100 0)
        200 100 0 0) demo_server_used (demo_session 1) =
     returns (demo_state (demo_entry 0 100 ADDR_NULL ADDR_NULL 100 @
                          demo_entry 2 200 0 200 ADDR_NULL @
                          demo_entry 1 ADDR_NULL 100 ADDR_NULL ADDR_NULL)
                300 200 0 0, demo_server_used)"
  by code_simp

lemma three_save_4:
  "lru_save demo_primitives
     (demo_state (demo_entry 0 100 ADDR_NULL ADDR_NULL 100 @
                  demo_entry 2 200 0 200 ADDR_NULL @
                  demo_entry 1 ADDR_NULL 100 ADDR_NULL ADDR_NULL)
        300 200 0 0) demo_server_used (demo_session 4) =
     returns (demo_state (demo_entry 4 ADDR_NULL 200 ADDR_NULL ADDR_NULL @
                          demo_entry 2 200 ADDR_NULL ADDR_NULL ADDR_NULL @
                          demo_entry 1 0 100 ADDR_NULL 0)
                300 0 100 200, demo_server_used)"
  by code_simp

lemma three_save_3:
  "lru_save demo_primitives
     (demo_state (demo_entry 4 ADDR_NULL 200 ADDR_NULL ADDR_NULL @
                  demo_entry 2 200 ADDR_NULL ADDR_NULL ADDR_NULL @
                  demo_entry 1 0 100 ADDR_NULL 0)
        300 0 100 200) demo_server_used (demo_session 3) =
     returns (demo_state (demo_entry 4 100 200 ADDR_NULL ADDR_NULL @
                          demo_entry 3 ADDR_NULL 0 ADDR_NULL ADDR_NULL @
                          demo_entry 1 0 ADDR_NULL ADDR_NULL 0)
                300 100 200 100, demo_server_used)"
  by code_simp

lemma three_save_5:
  "lru_save demo_primitives
     (demo_state (demo_entry 4 100 200 ADDR_NULL ADDR_NULL @
                  demo_entry 3 ADDR_NULL 0 ADDR_NULL ADDR_NULL @
                  demo_entry 1 0 ADDR_NULL ADDR_NULL 0)
        300 100 200 100) demo_server_used (demo_session 5) =
     returns (demo_state (demo_entry 4 100 ADDR_NULL ADDR_NULL ADDR_NULL @
                          demo_entry 3 200 0 0 200 @
                          demo_entry 5 ADDR_NULL 100 ADDR_NULL ADDR_NULL)
                300 200 0 100, demo_server_used)"
  by code_simp

lemma three_save_7:
  "lru_save demo_primitives
     (demo_state (demo_entry 4 100 ADDR_NULL ADDR_NULL ADDR_NULL @
                  demo_entry 3 200 0 0 200 @
                  demo_entry 5 ADDR_NULL 100 ADDR_NULL ADDR_NULL)
        300 200 0 100) demo_server_used (demo_session 7) =
     returns (demo_state (demo_entry 7 ADDR_NULL 200 ADDR_NULL ADDR_NULL @
                          demo_entry 3 200 ADDR_NULL 0 200 @
                          demo_entry 5 0 100 ADDR_NULL ADDR_NULL)
                300 0 100 0, demo_server_used)"
  by code_simp

text \<open>
  The eighth save evicts the entry at 100. Its replacement in the tree is its left child,
  the entry at 0, which is also the root and the parent link \<open>remove_node\<close> found: the
  left link of the entry at 0 now designates the entry at 0.
\<close>

lemma three_room_6:
  "lru_save_room
     (demo_state (demo_entry 7 ADDR_NULL 200 ADDR_NULL ADDR_NULL @
                  demo_entry 3 200 ADDR_NULL 0 200 @
                  demo_entry 5 0 100 ADDR_NULL ADDR_NULL)
        300 0 100 0) =
     returns (demo_state (demo_entry 7 ADDR_NULL 200 0 ADDR_NULL @
                          demo_entry 3 200 ADDR_NULL ADDR_NULL 200 @
                          demo_entry 5 0 ADDR_NULL ADDR_NULL ADDR_NULL)
                300 0 200 0, 100)"
  by code_simp

lemma three_find_6:
  "find_node
     (demo_state (demo_entry 7 ADDR_NULL 200 ADDR_NULL ADDR_NULL @
                  demo_entry 3 200 ADDR_NULL 0 200 @
                  demo_entry 5 0 100 ADDR_NULL ADDR_NULL)
        300 0 100 0) (Inr (session_id (demo_session 6))) = returns (ADDR_NULL, 92)"
  by code_simp

text \<open>A walk that goes left at a node whose left link is the node itself does not end.\<close>

lemma find_node_loop_self_left:
  fixes cc :: "'h br_ssl_session_cache_lru"
  assumes k: "load_bytes (store cc) (unat x + SESSION_ID_OFF) SESSION_ID_LEN = Inr k"
    and lt: "memcmp (take SESSION_ID_LEN idb) k < 0"
    and self: "get_left cc x = Inr x"
    and nn: "x \<noteq> ADDR_NULL"
  shows "find_node_loop cc (Inr idb) x y = None"
proof (rule ccontr)
  assume "find_node_loop cc (Inr idb) x y \<noteq> None"
  then obtain r where r: "find_node_loop cc (Inr idb) x y = Some r" by blast
  from r have "x \<noteq> x"
  proof (induct rule: find_node_loop_induct[where P = "\<lambda>x' y' r'. x' \<noteq> x"])
    case (step f x' y' r')
    show ?case
    proof
      assume e: "x' = x"
      from step(2) have "f x (x + of_nat TREE_LEFT_OFF) = Some r'"
        unfolding e using k lt self nn by simp
      from step(1)[OF this] show False by simp
    qed
  qed
  then show False by simp
qed

lemma three_save_6:
  "lru_save demo_primitives
     (demo_state (demo_entry 7 ADDR_NULL 200 ADDR_NULL ADDR_NULL @
                  demo_entry 3 200 ADDR_NULL 0 200 @
                  demo_entry 5 0 100 ADDR_NULL ADDR_NULL)
        300 0 100 0) demo_server_used (demo_session 6) = None"
proof -
  define cc where "cc = demo_state (demo_entry 7 ADDR_NULL 200 ADDR_NULL ADDR_NULL @
                  demo_entry 3 200 ADDR_NULL 0 200 @
                  demo_entry 5 0 100 ADDR_NULL ADDR_NULL)
        300 0 100 0"
  define cc1 where "cc1 = demo_state (demo_entry 7 ADDR_NULL 200 0 ADDR_NULL @
                          demo_entry 3 200 ADDR_NULL ADDR_NULL 200 @
                          demo_entry 5 0 ADDR_NULL ADDR_NULL ADDR_NULL)
                300 0 200 0"
  define idb where "idb = session_id (demo_session 6)"
  have len: "\<not> store_len cc < LRU_ENTRY_LEN" unfolding cc_def by code_simp
  have i: "lru_save_init demo_primitives cc demo_server_used = (cc, demo_server_used)"
    unfolding cc_def by (simp add: lru_save_init_def demo_state_def)
  have m: "mask_id demo_primitives cc (session_id (demo_session 6)) = idb"
    unfolding idb_def by (simp add: mask_id_eq demo_primitives_def demo_session_def)
  have f: "find_node cc (Inr idb) = returns (ADDR_NULL, 92)"
    unfolding cc_def idb_def by (rule three_find_6)
  have room: "lru_save_room cc = returns (cc1, 100)"
    unfolding cc_def cc1_def by (rule three_room_6)
  have k: "load_bytes (store cc1) (unat (0 :: u32) + SESSION_ID_OFF) SESSION_ID_LEN =
      Inr (session_id (demo_session 7))"
    unfolding cc1_def by code_simp
  have lt: "memcmp (take SESSION_ID_LEN idb) (session_id (demo_session 7)) < 0"
    unfolding idb_def by code_simp
  have self: "get_left cc1 0 = Inr 0" unfolding cc1_def by code_simp
  have r0: "root cc1 = 0" unfolding cc1_def by (simp add: demo_state_def)
  have "find_node cc1 (Inr idb) = None"
    unfolding find_node_def r0
    by (rule find_node_loop_self_left[OF k lt self]) (simp add: ADDR_NULL_def)
  then have link: "lru_save_link cc1 100 idb (demo_session 6) = None"
    by (simp add: lru_save_link_def)
  have "lru_save demo_primitives cc demo_server_used (demo_session 6) = None"
    using len i m f room link by (simp add: lru_save_def Let_def)
  then show ?thesis unfolding cc_def .
qed

lemma three_load_2:
  "lru_load demo_primitives
     (demo_state (demo_entry 4 ADDR_NULL 200 ADDR_NULL ADDR_NULL @
                  demo_entry 2 200 ADDR_NULL ADDR_NULL ADDR_NULL @
                  demo_entry 1 0 100 ADDR_NULL 0)
        300 0 100 200) demo_server_used (demo_query 2) =
     returns (0, demo_state (demo_entry 4 ADDR_NULL 200 ADDR_NULL ADDR_NULL @
                  demo_entry 2 200 ADDR_NULL ADDR_NULL ADDR_NULL @
                  demo_entry 1 0 100 ADDR_NULL 0)
        300 0 100 200, demo_server_used, demo_query 2)"
  by code_simp

lemma three_load_0:
  "lru_load demo_primitives
     (demo_state (demo_entry 0 ADDR_NULL ADDR_NULL ADDR_NULL ADDR_NULL @ replicate 200 0)
        100 0 0 0) demo_server_used (demo_query 0) =
     returns (1, demo_state (demo_entry 0 ADDR_NULL ADDR_NULL ADDR_NULL ADDR_NULL @ replicate 200 0)
        100 0 0 0, demo_server_used, demo_session 0)"
  by code_simp

lemma three_reachable_0:
  "reachable demo_primitives
     (demo_state (demo_entry 0 ADDR_NULL ADDR_NULL ADDR_NULL ADDR_NULL @ replicate 200 0)
        100 0 0 0)"
proof -
  have "reachable demo_primitives (demo_cache 300)" by (rule demo_cache_reachable) simp
  then show ?thesis by (rule reachable.save) (rule three_save_0[unfolded returns_def])
qed

lemma demo_params_ok: "params_ok (demo_session k)" "params_ok (demo_query k)"
  by (simp_all add: params_ok_def demo_session_def demo_query_def offs)

lemma demo_mask_id:
  "length src = 32 \<Longrightarrow> mask_id demo_primitives cc src = src"
  by (simp add: mask_id_eq demo_primitives_def)

lemma link_ok_entries: "link_ok cc v \<longleftrightarrow> v = ADDR_NULL \<or> v \<in> entries cc"
  by (simp add: link_ok_def entries_def below_def offs null_numeral)

section \<open>The error constants\<close>

text \<open>
  C8. The error constants have the values the spec lists, the received-alert base is 256,
  the sent-alert base is 512, and no constant has the value 11.
\<close>

theorem error_taxonomy:
  "BR_ERR_OK = 0 \<and> BR_ERR_BAD_PARAM = 1 \<and> BR_ERR_BAD_STATE = 2 \<and>
   BR_ERR_UNSUPPORTED_VERSION = 3 \<and> BR_ERR_BAD_VERSION = 4 \<and> BR_ERR_BAD_LENGTH = 5 \<and>
   BR_ERR_TOO_LARGE = 6 \<and> BR_ERR_BAD_MAC = 7 \<and> BR_ERR_NO_RANDOM = 8 \<and>
   BR_ERR_UNKNOWN_TYPE = 9 \<and> BR_ERR_UNEXPECTED = 10 \<and> BR_ERR_BAD_CCS = 12 \<and>
   BR_ERR_BAD_ALERT = 13 \<and> BR_ERR_BAD_HANDSHAKE = 14 \<and> BR_ERR_OVERSIZED_ID = 15 \<and>
   BR_ERR_BAD_CIPHER_SUITE = 16 \<and> BR_ERR_BAD_COMPRESSION = 17 \<and> BR_ERR_BAD_FRAGLEN = 18 \<and>
   BR_ERR_BAD_SECRENEG = 19 \<and> BR_ERR_EXTRA_EXTENSION = 20 \<and> BR_ERR_BAD_SNI = 21 \<and>
   BR_ERR_BAD_HELLO_DONE = 22 \<and> BR_ERR_LIMIT_EXCEEDED = 23 \<and> BR_ERR_BAD_FINISHED = 24 \<and>
   BR_ERR_RESUME_MISMATCH = 25 \<and> BR_ERR_INVALID_ALGORITHM = 26 \<and>
   BR_ERR_BAD_SIGNATURE = 27 \<and> BR_ERR_IO = 31 \<and>
   BR_ERR_RECV_FATAL_ALERT = 256 \<and> BR_ERR_SEND_FATAL_ALERT = 512 \<and>
   11 \<notin> set br_err_constants \<and> length br_err_constants = 30"
  by (simp add: br_err_constants_def BR_ERR_OK_def BR_ERR_BAD_PARAM_def BR_ERR_BAD_STATE_def
      BR_ERR_UNSUPPORTED_VERSION_def BR_ERR_BAD_VERSION_def BR_ERR_BAD_LENGTH_def
      BR_ERR_TOO_LARGE_def BR_ERR_BAD_MAC_def BR_ERR_NO_RANDOM_def BR_ERR_UNKNOWN_TYPE_def
      BR_ERR_UNEXPECTED_def BR_ERR_BAD_CCS_def BR_ERR_BAD_ALERT_def BR_ERR_BAD_HANDSHAKE_def
      BR_ERR_OVERSIZED_ID_def BR_ERR_BAD_CIPHER_SUITE_def BR_ERR_BAD_COMPRESSION_def
      BR_ERR_BAD_FRAGLEN_def BR_ERR_BAD_SECRENEG_def BR_ERR_EXTRA_EXTENSION_def
      BR_ERR_BAD_SNI_def BR_ERR_BAD_HELLO_DONE_def BR_ERR_LIMIT_EXCEEDED_def
      BR_ERR_BAD_FINISHED_def BR_ERR_RESUME_MISMATCH_def BR_ERR_INVALID_ALGORITHM_def
      BR_ERR_BAD_SIGNATURE_def BR_ERR_IO_def BR_ERR_RECV_FATAL_ALERT_def
      BR_ERR_SEND_FATAL_ALERT_def)

section \<open>Load on a cache without a key\<close>

text \<open>
  C9. On a cache whose \<open>init_done\<close> is 0, which is how \<open>br_ssl_session_cache_lru_init\<close>
  leaves it, \<open>lru_load\<close> returns 0 and leaves the cache (so its slab), the server
  context (so its DRBG) and the caller's parameters as they were. It does so whatever the
  slab is, also for an empty slab, where every access would be out of bounds.
\<close>

theorem lru_load_uninitialised:
  "\<not> init_done (br_ssl_session_cache_lru_init c st len) \<and>
   (\<not> init_done cc \<longrightarrow>
      lru_load P cc server_ctx params = returns (0, cc, server_ctx, params))"
  by (simp add: lru_load_def br_ssl_session_cache_lru_init_def)

theorem lru_load_uninitialised_witness:
  "\<not> init_done (demo_cache 0) \<and>
   lru_load demo_primitives (demo_cache 0) demo_server (demo_query 1) =
     returns (0, demo_cache 0, demo_server, demo_query 1)"
  using lru_load_uninitialised [of blank_cache "[]" 0 "demo_cache 0" demo_primitives
      demo_server "demo_query 1"]
  by (simp add: demo_cache_def br_ssl_session_cache_lru_init_def)

section \<open>The allocation invariant\<close>

text \<open>
  C10. In every cache reached from \<open>br_ssl_session_cache_lru_init\<close> over a slab of the
  stated length by \<open>save\<close> and \<open>load\<close> calls, \<open>store_ptr\<close> is a multiple of 100 and at
  most \<open>store_len\<close>, and \<open>head\<close>, \<open>tail\<close>, \<open>root\<close> and the four links of every allocated
  entry are \<open>0xFFFFFFFF\<close> or a multiple of 100 below \<open>store_ptr\<close>; no \<open>save\<close> and no
  \<open>load\<close> on such a cache accesses a byte outside the slab, and the cache each returns
  has a \<open>store_ptr\<close> that is not smaller and satisfies the invariant again.
\<close>

theorem allocation_invariant:
  assumes "reachable P cc"
  shows "alloc_inv cc \<and>
     lru_save P cc server_ctx params \<noteq> Some (Inl OutOfBounds) \<and>
     lru_load P cc server_ctx params \<noteq> Some (Inl OutOfBounds) \<and>
     (\<forall>cc' sc'. lru_save P cc server_ctx params = Some (Inr (cc', sc')) \<longrightarrow>
        store_ptr cc \<le> store_ptr cc' \<and> alloc_inv cc') \<and>
     (\<forall>res cc' sc' params'.
        lru_load P cc server_ctx params = Some (Inr (res, cc', sc', params')) \<longrightarrow>
        store_ptr cc \<le> store_ptr cc' \<and> alloc_inv cc')"
proof -
  have inv: "lru_inv cc" using assms by (rule reachable_inv)
  have 1: "alloc_inv cc" using inv by (rule lru_inv_alloc_inv)
  have 2: "lru_save P cc server_ctx params \<noteq> Some (Inl OutOfBounds)"
    using lru_save_inv[OF inv, of P server_ctx params] by auto
  have 3: "lru_load P cc server_ctx params \<noteq> Some (Inl OutOfBounds)"
    using lru_load_inv[OF inv, of P server_ctx params] by auto
  have 4: "store_ptr cc \<le> store_ptr cc' \<and> alloc_inv cc'"
    if "lru_save P cc server_ctx params = Some (Inr (cc', sc'))" for cc' sc'
    using lru_save_inv[OF inv that] by (auto intro: lru_inv_alloc_inv)
  have 5: "store_ptr cc \<le> store_ptr cc' \<and> alloc_inv cc'"
    if "lru_load P cc server_ctx params = Some (Inr (res, cc', sc', params'))"
    for res cc' sc' params'
    using lru_load_inv[OF inv that] by (auto intro: lru_inv_alloc_inv)
  show ?thesis using 1 2 3 4 5 by blast
qed

theorem allocation_invariant_witness:
  "alloc_inv (demo_cache 200) \<and>
   lru_save demo_primitives (demo_cache 200) demo_server (demo_session 1) \<noteq>
     Some (Inl OutOfBounds) \<and>
   (\<exists>cc' sc'. lru_save demo_primitives (demo_cache 200) demo_server (demo_session 1) =
        Some (Inr (cc', sc')) \<and>
      store_ptr (demo_cache 200) \<le> store_ptr cc' \<and> alloc_inv cc')"
proof -
  have r: "reachable demo_primitives (demo_cache 200)" by (rule demo_cache_reachable) simp
  from lru_save_fresh[OF reachable_inv[OF r], of demo_primitives demo_server "demo_session 1"]
  obtain cc' sc' where
    s: "lru_save demo_primitives (demo_cache 200) demo_server (demo_session 1) =
        Some (Inr (cc', sc'))"
    by (auto simp: demo_cache_fields offs)
  from allocation_invariant[OF r, of demo_server "demo_session 1"] s show ?thesis by auto
qed

section \<open>The key of the index\<close>

text \<open>
  C6, as the code has it. The size check comes first: a save on a slab shorter than one
  entry returns before the initialisation, draws nothing and leaves \<open>init_done\<close> at 0.
  On a reachable cache whose slab holds at least one entry, a save that finds
  \<open>init_done\<close> at 0 takes \<open>index_key\<close> from one draw of 32 bytes from the DRBG and
  \<open>hash\<close> from that DRBG, and sets \<open>init_done\<close>; a save that finds \<open>init_done\<close> set,
  and every load, keep \<open>index_key\<close>, \<open>hash\<close> and the DRBG as they are. The first
  save on a fresh cache with room for an entry returns.
\<close>

theorem first_save_draws_key:
  assumes "reachable P cc"
  shows
    "(store_len cc < LRU_ENTRY_LEN \<longrightarrow>
        lru_save P cc server_ctx params = returns (cc, server_ctx)) \<and>
     (LRU_ENTRY_LEN \<le> store_len cc \<and> \<not> init_done cc \<and>
      lru_save P cc server_ctx params = Some (Inr (cc', sc')) \<longrightarrow>
        index_key cc' = fst (br_hmac_drbg_generate P (rng server_ctx) 32) \<and>
        hash cc' = br_hmac_drbg_get_hash P (snd (br_hmac_drbg_generate P (rng server_ctx) 32)) \<and>
        rng sc' = snd (br_hmac_drbg_generate P (rng server_ctx) 32) \<and> init_done cc') \<and>
     (init_done cc \<and> lru_save P cc server_ctx params = Some (Inr (cc', sc')) \<longrightarrow>
        index_key cc' = index_key cc \<and> hash cc' = hash cc \<and> sc' = server_ctx \<and>
        init_done cc') \<and>
     (lru_load P cc server_ctx params = Some (Inr (res, cc2, sc2, params2)) \<longrightarrow>
        index_key cc2 = index_key cc \<and> hash cc2 = hash cc \<and> sc2 = server_ctx \<and>
        init_done cc2 = init_done cc) \<and>
     (store_ptr cc = 0 \<and> LRU_ENTRY_LEN \<le> store_len cc \<longrightarrow>
        (\<exists>c s. lru_save P cc server_ctx params = Some (Inr (c, s))))"
proof -
  have inv: "lru_inv cc" using assms by (rule reachable_inv)
  have 1: "lru_save P cc server_ctx params = returns (cc, server_ctx)"
    if "store_len cc < LRU_ENTRY_LEN"
    using that by (simp add: lru_save_def)
  have 2: "index_key cc' = fst (br_hmac_drbg_generate P (rng server_ctx) 32) \<and>
        hash cc' = br_hmac_drbg_get_hash P (snd (br_hmac_drbg_generate P (rng server_ctx) 32)) \<and>
        rng sc' = snd (br_hmac_drbg_generate P (rng server_ctx) 32) \<and> init_done cc'"
    if "LRU_ENTRY_LEN \<le> store_len cc" "\<not> init_done cc"
      "lru_save P cc server_ctx params = Some (Inr (cc', sc'))"
    using lru_save_inv[OF inv that(3)] that(1,2)
    by (auto simp: lru_save_init_def split: prod.splits)
  have 3: "index_key cc' = index_key cc \<and> hash cc' = hash cc \<and> sc' = server_ctx \<and> init_done cc'"
    if "init_done cc" "lru_save P cc server_ctx params = Some (Inr (cc', sc'))"
    using lru_save_inv[OF inv that(2)] that(1)
    by (auto simp: lru_save_init_def split: if_splits)
  have 4: "index_key cc2 = index_key cc \<and> hash cc2 = hash cc \<and> sc2 = server_ctx \<and>
        init_done cc2 = init_done cc"
    if "lru_load P cc server_ctx params = Some (Inr (res, cc2, sc2, params2))"
    using lru_load_inv[OF inv that] by auto
  have 5: "\<exists>c s. lru_save P cc server_ctx params = Some (Inr (c, s))"
    if "store_ptr cc = 0" "LRU_ENTRY_LEN \<le> store_len cc"
  proof -
    have "null_or_below 0 (root cc)" using inv that(1) by (simp add: lru_inv_def tree_ok_def)
    then have "root cc = ADDR_NULL" by (simp add: null_or_below_def below_def)
    from lru_save_fresh[OF inv this] that show ?thesis by simp
  qed
  show ?thesis using 1 2 3 4 5 by blast
qed

theorem first_save_draws_key_witness:
  "\<exists>cc' sc'.
     lru_save demo_primitives (demo_cache 200) demo_server (demo_session 1) =
       Some (Inr (cc', sc')) \<and>
     index_key cc' = replicate 32 7 \<and> rng sc' = 8 \<and> init_done cc' \<and>
     lru_save demo_primitives (demo_cache 50) demo_server (demo_session 1) =
       returns (demo_cache 50, demo_server) \<and>
     lru_load demo_primitives (demo_cache 200) demo_server (demo_query 1) =
       returns (0, demo_cache 200, demo_server, demo_query 1)"
proof -
  have r: "reachable demo_primitives (demo_cache 200)" by (rule demo_cache_reachable) simp
  have r50: "reachable demo_primitives (demo_cache 50)" by (rule demo_cache_reachable) simp
  have "\<exists>c s. lru_save demo_primitives (demo_cache 200) demo_server (demo_session 1) =
      Some (Inr (c, s))"
    using first_save_draws_key[OF r, where server_ctx = demo_server and params = "demo_session 1"
        and cc' = "demo_cache 200" and sc' = demo_server and res = 0 and ?cc2.0 = "demo_cache 200"
        and ?sc2.0 = demo_server and ?params2.0 = "demo_session 1"]
    by (simp add: demo_cache_fields offs)
  then obtain c s where
    s: "lru_save demo_primitives (demo_cache 200) demo_server (demo_session 1) = Some (Inr (c, s))"
    by blast
  from first_save_draws_key[OF r, of demo_server "demo_session 1" c s] s
  have k: "index_key c = replicate 32 7" "rng s = 8" "init_done c"
    by (simp_all add: demo_cache_fields offs demo_primitives_def demo_server_def)
  have small: "lru_save demo_primitives (demo_cache 50) demo_server (demo_session 1) =
       returns (demo_cache 50, demo_server)"
    using first_save_draws_key[OF r50, of demo_server "demo_session 1"]
    by (simp add: demo_cache_fields offs)
  have ld: "lru_load demo_primitives (demo_cache 200) demo_server (demo_query 1) =
       returns (0, demo_cache 200, demo_server, demo_query 1)"
    by (simp add: lru_load_def demo_cache_fields)
  show ?thesis using s k small ld by blast
qed

text \<open>
  C6 as it is stated fails on a slab of 50 bytes: the first save ever performed on that
  cache returns with \<open>init_done\<close> still 0, the key not drawn and the DRBG untouched.
\<close>

theorem first_save_small_slab_counterexample:
  "\<not> init_done (demo_cache 50) \<and>
   lru_save demo_primitives (demo_cache 50) demo_server (demo_session 1) =
     returns (demo_cache 50, demo_server) \<and>
   index_key (demo_cache 50) \<noteq>
     fst (br_hmac_drbg_generate demo_primitives (rng demo_server) 32)"
  by (simp add: lru_save_def demo_cache_def br_ssl_session_cache_lru_init_def offs
      blank_cache_def demo_primitives_def)

section \<open>The layout of an entry\<close>

text \<open>
  C7. The offsets and the entry length are those of the claim and \<open>ADDR_NULL\<close> is
  0xFFFFFFFF. On a reachable cache every entry starts at a multiple of 100 and its 100
  bytes lie in the slab; the four link fields are read as 4-byte big-endian values at
  offsets 84, 88, 92 and 96 and each is null or the offset of an allocated entry. A save
  that inserts writes, at the new head, the masked ID, the master secret, the version and
  the cipher suite (2 bytes each, big-endian) and the four links, in that order, 100
  bytes in all. A load that finds an entry reads the secret, the version and the suite
  back from offsets 32, 80 and 82 of the entry whose first 32 bytes are the masked ID.
\<close>

theorem entry_layout:
  assumes "reachable P cc"
  shows
    "SESSION_ID_OFF = 0 \<and> SESSION_ID_LEN = 32 \<and> MASTER_SECRET_OFF = 32 \<and>
     MASTER_SECRET_LEN = 48 \<and> VERSION_OFF = 80 \<and> CIPHER_SUITE_OFF = 82 \<and>
     LIST_PREV_OFF = 84 \<and> LIST_NEXT_OFF = 88 \<and> TREE_LEFT_OFF = 92 \<and>
     TREE_RIGHT_OFF = 96 \<and> LRU_ENTRY_LEN = 100 \<and> ADDR_NULL = 0xFFFFFFFF \<and>
     br_enc16be 0x0102 = [1, 2] \<and> br_enc32be 0x01020304 = [1, 2, 3, 4] \<and>
     (x \<in> entries cc \<longrightarrow>
        unat x mod 100 = 0 \<and> unat x + 100 \<le> length (store cc) \<and>
        get_prev cc x = Inr (br_dec32be (peek (store cc) (unat x + 84) 4)) \<and>
        get_next cc x = Inr (br_dec32be (peek (store cc) (unat x + 88) 4)) \<and>
        get_left cc x = Inr (br_dec32be (peek (store cc) (unat x + 92) 4)) \<and>
        get_right cc x = Inr (br_dec32be (peek (store cc) (unat x + 96) 4)) \<and>
        link_ok cc (prev_of cc x) \<and> link_ok cc (next_of cc x) \<and>
        link_ok cc (left_of cc x) \<and> link_ok cc (right_of cc x)) \<and>
     (params_ok params \<and> LRU_ENTRY_LEN \<le> store_len cc \<and>
      lru_save_init P cc sc = (cc0, sc0) \<and>
      find_node cc0 (Inr (mask_id P cc0 (session_id params))) = Some (Inr (ADDR_NULL, al)) \<and>
      lru_save P cc sc params = Some r \<longrightarrow>
        (\<exists>cc' nx. r = Inr (cc', sc0) \<and> head cc' \<in> entries cc' \<and> link_ok cc' nx \<and>
           peek (store cc') (unat (head cc')) 100 =
             entry_bytes (mask_id P cc0 (session_id params)) (master_secret params)
               (version params) (cipher_suite params) 0xFFFFFFFF nx 0xFFFFFFFF 0xFFFFFFFF \<and>
           length (entry_bytes (mask_id P cc0 (session_id params)) (master_secret params)
               (version params) (cipher_suite params) 0xFFFFFFFF nx 0xFFFFFFFF 0xFFFFFFFF) =
             100)) \<and>
     (init_done cc \<and> params_ok params \<and>
      lru_load P cc sc params = Some (Inr (1, cc1, sc1, params1)) \<longrightarrow>
        (\<exists>y. y \<in> entries cc \<and>
           peek (store cc) (unat y) 32 = mask_id P cc (session_id params) \<and>
           master_secret params1 = peek (store cc) (unat y + 32) 48 \<and>
           version params1 = br_dec16be (peek (store cc) (unat y + 80) 2) \<and>
           cipher_suite params1 = br_dec16be (peek (store cc) (unat y + 82) 2)))"
proof -
  have inv: "lru_inv cc" using assms by (rule reachable_inv)
  have layout: "SESSION_ID_OFF = 0 \<and> SESSION_ID_LEN = 32 \<and> MASTER_SECRET_OFF = 32 \<and>
     MASTER_SECRET_LEN = 48 \<and> VERSION_OFF = 80 \<and> CIPHER_SUITE_OFF = 82 \<and>
     LIST_PREV_OFF = 84 \<and> LIST_NEXT_OFF = 88 \<and> TREE_LEFT_OFF = 92 \<and>
     TREE_RIGHT_OFF = 96 \<and> LRU_ENTRY_LEN = 100 \<and> ADDR_NULL = 0xFFFFFFFF"
    by (simp add: offs null_numeral)
  have enc: "br_enc16be 0x0102 = [1, 2] \<and> br_enc32be 0x01020304 = [1, 2, 3, 4]"
    by code_simp
  have ent: "unat x mod 100 = 0 \<and> unat x + 100 \<le> length (store cc) \<and>
        get_prev cc x = Inr (br_dec32be (peek (store cc) (unat x + 84) 4)) \<and>
        get_next cc x = Inr (br_dec32be (peek (store cc) (unat x + 88) 4)) \<and>
        get_left cc x = Inr (br_dec32be (peek (store cc) (unat x + 92) 4)) \<and>
        get_right cc x = Inr (br_dec32be (peek (store cc) (unat x + 96) 4)) \<and>
        link_ok cc (prev_of cc x) \<and> link_ok cc (next_of cc x) \<and>
        link_ok cc (left_of cc x) \<and> link_ok cc (right_of cc x)"
    if x: "x \<in> entries cc"
  proof -
    have b: "below (store_ptr cc) x" using x by (simp add: entries_def)
    have sl: "slot cc x" using inv b by (auto simp: lru_inv_def intro: slab_ok_slot)
    have al: "unat x mod 100 = 0 \<and> unat x < store_ptr cc" using b by (simp add: below_def offs)
    have "alloc_inv cc" using inv by (rule lru_inv_alloc_inv)
    then have "\<forall>z. unat z mod 100 = 0 \<and> unat z < store_ptr cc \<longrightarrow>
        link_ok cc (prev_of cc z) \<and> link_ok cc (next_of cc z) \<and>
        link_ok cc (left_of cc z) \<and> link_ok cc (right_of cc z)"
      by (simp add: alloc_inv_def)
    then have "unat x mod 100 = 0 \<and> unat x < store_ptr cc \<longrightarrow>
        link_ok cc (prev_of cc x) \<and> link_ok cc (next_of cc x) \<and>
        link_ok cc (left_of cc x) \<and> link_ok cc (right_of cc x)"
      by (rule spec)
    then have links: "link_ok cc (prev_of cc x) \<and> link_ok cc (next_of cc x) \<and>
        link_ok cc (left_of cc x) \<and> link_ok cc (right_of cc x)"
      using al by (rule mp)
    have g: "get_prev cc x = Inr (br_dec32be (peek (store cc) (unat x + 84) 4))"
      "get_next cc x = Inr (br_dec32be (peek (store cc) (unat x + 88) 4))"
      "get_left cc x = Inr (br_dec32be (peek (store cc) (unat x + 92) 4))"
      "get_right cc x = Inr (br_dec32be (peek (store cc) (unat x + 96) 4))"
      using get_prev_slot[OF sl] get_next_slot[OF sl] get_left_slot[OF sl] get_right_slot[OF sl]
      by (simp_all add: prev_of_def next_of_def left_of_def right_of_def fld_def offs)
    show ?thesis using sl al links g by (simp add: slot_def offs)
  qed
  have sv: "\<exists>cc' nx. r = Inr (cc', sc0) \<and> head cc' \<in> entries cc' \<and> link_ok cc' nx \<and>
           peek (store cc') (unat (head cc')) 100 =
             entry_bytes (mask_id P cc0 (session_id params)) (master_secret params)
               (version params) (cipher_suite params) 0xFFFFFFFF nx 0xFFFFFFFF 0xFFFFFFFF \<and>
           length (entry_bytes (mask_id P cc0 (session_id params)) (master_secret params)
               (version params) (cipher_suite params) 0xFFFFFFFF nx 0xFFFFFFFF 0xFFFFFFFF) =
             100"
    if h: "params_ok params" "LRU_ENTRY_LEN \<le> store_len cc"
      "lru_save_init P cc sc = (cc0, sc0)"
      "find_node cc0 (Inr (mask_id P cc0 (session_id params))) = Some (Inr (ADDR_NULL, al))"
      "lru_save P cc sc params = Some r"
  proof -
    have len: "length (entry_bytes (mask_id P cc0 (session_id params)) (master_secret params)
               (version params) (cipher_suite params) a b c d) = 100" for a b c d
      using h(1) by (simp add: entry_bytes_def mask_id_length params_ok_def offs)
    from lru_save_inserts[OF inv h(5) h(2) h(3) h(4) h(1)] show ?thesis
      unfolding null_numeral link_ok_entries len by (auto simp: null_numeral)
  qed
  have ld: "\<exists>y. y \<in> entries cc \<and>
           peek (store cc) (unat y) 32 = mask_id P cc (session_id params) \<and>
           master_secret params1 = peek (store cc) (unat y + 32) 48 \<and>
           version params1 = br_dec16be (peek (store cc) (unat y + 80) 2) \<and>
           cipher_suite params1 = br_dec16be (peek (store cc) (unat y + 82) 2)"
    if h: "init_done cc" "params_ok params"
      "lru_load P cc sc params = Some (Inr (1, cc1, sc1, params1))"
    using lru_load_result[OF inv h(1) h(2) h(3)] by (auto simp: key_of_def offs)
  show ?thesis using layout enc ent sv ld by blast
qed

theorem entry_layout_witness:
  "\<exists>cc' sc' nx.
     lru_save demo_primitives (demo_cache 300) demo_server (demo_session 0) =
       Some (Inr (cc', sc')) \<and>
     peek (store cc') (unat (head cc')) 100 = demo_entry 0 0xFFFFFFFF nx 0xFFFFFFFF 0xFFFFFFFF \<and>
     length (demo_entry 0 0xFFFFFFFF nx 0xFFFFFFFF 0xFFFFFFFF) = 100"
proof -
  define first where "first = demo_state (demo_entry 0 ADDR_NULL ADDR_NULL ADDR_NULL ADDR_NULL @
        replicate 200 0) 100 0 0 0"
  have r: "reachable demo_primitives (demo_cache 300)" by (rule demo_cache_reachable) simp
  obtain cc0 sc0 where
    i: "lru_save_init demo_primitives (demo_cache 300) demo_server = (cc0, sc0)"
    by (cases "lru_save_init demo_primitives (demo_cache 300) demo_server")
  have "root cc0 = ADDR_NULL"
    using lru_save_init_store[OF i] by (simp add: demo_cache_fields)
  then have f: "find_node cc0 (Inr (mask_id demo_primitives cc0 (session_id (demo_session 0)))) =
      Some (Inr (ADDR_NULL, ADDR_NULL))"
    by (simp add: find_node_empty returns_def)
  have m: "mask_id demo_primitives cc0 (session_id (demo_session 0)) =
      session_id (demo_session 0)"
    by (rule demo_mask_id) (simp add: demo_session_def)
  have s: "lru_save demo_primitives (demo_cache 300) demo_server (demo_session 0) =
      Some (Inr (first, demo_server_used))"
    unfolding first_def using three_save_0 by (simp add: returns_def)
  have ok: "params_ok (demo_session 0)" by (rule demo_params_ok)
  have len: "LRU_ENTRY_LEN \<le> store_len (demo_cache 300)"
    by (simp add: demo_cache_fields offs)
  note t = entry_layout[OF r, where x = 0 and sc = demo_server and params = "demo_session 0"
      and ?cc0.0 = cc0 and ?sc0.0 = sc0 and al = ADDR_NULL
      and r = "Inr (first, demo_server_used)" and ?cc1.0 = first and ?sc1.0 = demo_server
      and ?params1.0 = "demo_session 0"]
  have "\<exists>cc' nx. Inr (first, demo_server_used) = Inr (cc', sc0) \<and> head cc' \<in> entries cc' \<and>
      link_ok cc' nx \<and>
      peek (store cc') (unat (head cc')) 100 =
        entry_bytes (mask_id demo_primitives cc0 (session_id (demo_session 0)))
          (master_secret (demo_session 0)) (version (demo_session 0))
          (cipher_suite (demo_session 0)) 0xFFFFFFFF nx 0xFFFFFFFF 0xFFFFFFFF \<and>
      length (entry_bytes (mask_id demo_primitives cc0 (session_id (demo_session 0)))
          (master_secret (demo_session 0)) (version (demo_session 0))
          (cipher_suite (demo_session 0)) 0xFFFFFFFF nx 0xFFFFFFFF 0xFFFFFFFF) = 100"
    using t ok len i f s by blast
  then obtain nx where
    e: "peek (store first) (unat (head first)) 100 =
          demo_entry 0 0xFFFFFFFF nx 0xFFFFFFFF 0xFFFFFFFF"
       "length (demo_entry 0 0xFFFFFFFF nx 0xFFFFFFFF 0xFFFFFFFF) = 100"
    unfolding m demo_entry_def by auto
  show ?thesis using s e by blast
qed

section \<open>Keys of the tree\<close>

text \<open>
  C4. For a 32-byte session ID the masked ID is 32 bytes long: the first 32 bytes of the
  HMAC of the raw ID under \<open>index_key\<close> and \<open>hash\<close> when the HMAC value has at least
  32 bytes, and otherwise the whole HMAC value followed by the raw ID bytes beyond its
  length. On a reachable cache over a slab with room for an entry, every save that
  returns, the first one included, leaves an entry whose stored key is the masked ID under
  the key of the cache, and the walk from the root for that masked ID ends at this entry:
  the cache is unchanged when the walk had found the masked ID before, the entry is the
  new head otherwise. A load of the same session ID on the resulting cache returns 1 with
  that entry at the head, and gives back the saved version, cipher suite and master secret
  when the save has inserted. A save on an empty cache returns and stores the head under
  the masked ID. A load returns 1 only with an entry stored under the masked ID of the
  requested ID, and 0 only when the key is not initialised or the walk for the masked ID
  ended on a null link. One step of the walk at an entry compares the masked ID with the
  stored key in lexicographic order of the 32 bytes: left when smaller, found when equal,
  right otherwise.
\<close>

theorem masked_id_keying:
  assumes "reachable P cc" and "params_ok params"
  shows
    "mask_id P cc (session_id params) =
       (if 32 \<le> length (hmac P (hash cc) (index_key cc) (session_id params))
        then take 32 (hmac P (hash cc) (index_key cc) (session_id params))
        else hmac P (hash cc) (index_key cc) (session_id params) @
             drop (length (hmac P (hash cc) (index_key cc) (session_id params)))
               (session_id params)) \<and>
     length (mask_id P cc (session_id params)) = 32 \<and>
     (LRU_ENTRY_LEN \<le> store_len cc \<and> lru_save_init P cc sc = (cc0, sc0) \<and>
      lru_save P cc sc params = Some r \<longrightarrow>
        (\<exists>cc' y al. r = Inr (cc', sc0) \<and> init_done cc' \<and> y \<in> entries cc' \<and>
           mask_id P cc' (session_id params) = mask_id P cc0 (session_id params) \<and>
           key_of cc' y = mask_id P cc' (session_id params) \<and>
           find_node cc' (Inr (mask_id P cc' (session_id params))) = Some (Inr (y, al)) \<and>
           ((\<exists>x al0. x \<noteq> ADDR_NULL \<and>
               find_node cc0 (Inr (mask_id P cc0 (session_id params))) = Some (Inr (x, al0))) \<longrightarrow>
              cc' = cc0) \<and>
           ((\<exists>al0. find_node cc0 (Inr (mask_id P cc0 (session_id params))) =
               Some (Inr (ADDR_NULL, al0))) \<longrightarrow>
              y = head cc'))) \<and>
     (LRU_ENTRY_LEN \<le> store_len cc \<and> lru_save_init P cc sc = (cc0, sc0) \<and>
      lru_save P cc sc params = Some (Inr (cc2, sc2)) \<and> session_id q = session_id params \<longrightarrow>
        (\<exists>cc3 q'. lru_load P cc2 sc2 q = Some (Inr (1, cc3, sc2, q')) \<and>
           key_of cc2 (head cc3) = mask_id P cc2 (session_id params) \<and>
           ((\<exists>al0. find_node cc0 (Inr (mask_id P cc0 (session_id params))) =
               Some (Inr (ADDR_NULL, al0))) \<longrightarrow>
              q' = q\<lparr>version := version params, cipher_suite := cipher_suite params,
                     master_secret := master_secret params\<rparr>))) \<and>
     (store_ptr cc = 0 \<and> LRU_ENTRY_LEN \<le> store_len cc \<longrightarrow>
        (\<exists>cc' sc'. lru_save P cc sc params = Some (Inr (cc', sc')) \<and>
           head cc' \<in> entries cc' \<and>
           key_of cc' (head cc') = mask_id P cc' (session_id params))) \<and>
     (lru_load P cc sc params = Some (Inr (res, cc1, sc1, params1)) \<longrightarrow>
        (res = 0 \<and>
         (\<not> init_done cc \<or>
          (\<exists>al. find_node cc (Inr (mask_id P cc (session_id params))) =
             Some (Inr (ADDR_NULL, al))))) \<or>
        (res = 1 \<and> init_done cc \<and> head cc1 \<in> entries cc \<and>
         key_of cc (head cc1) = mask_id P cc (session_id params))) \<and>
     (x \<in> entries cc \<longrightarrow>
        find_node_loop cc (Inr (mask_id P cc (session_id params))) x y =
          (if lex_less (mask_id P cc (session_id params)) (key_of cc x) then
             find_node_loop cc (Inr (mask_id P cc (session_id params))) (left_of cc x) (x + 92)
           else if mask_id P cc (session_id params) = key_of cc x then Some (Inr (x, y))
           else
             find_node_loop cc (Inr (mask_id P cc (session_id params))) (right_of cc x)
               (x + 96)))"
proof -
  have inv: "lru_inv cc" using assms(1) by (rule reachable_inv)
  have l: "length (session_id params) = 32" using assms(2) by (simp add: params_ok_def offs)
  have shape: "mask_id P cc (session_id params) =
       (if 32 \<le> length (hmac P (hash cc) (index_key cc) (session_id params))
        then take 32 (hmac P (hash cc) (index_key cc) (session_id params))
        else hmac P (hash cc) (index_key cc) (session_id params) @
             drop (length (hmac P (hash cc) (index_key cc) (session_id params)))
               (session_id params))"
    using l by (simp add: mask_id_eq min_def)
  have len: "length (mask_id P cc (session_id params)) = 32"
    using l by (simp add: mask_id_length)
  have sv: "\<exists>cc' y al. r = Inr (cc', sc0) \<and> init_done cc' \<and> y \<in> entries cc' \<and>
           mask_id P cc' (session_id params) = mask_id P cc0 (session_id params) \<and>
           key_of cc' y = mask_id P cc' (session_id params) \<and>
           find_node cc' (Inr (mask_id P cc' (session_id params))) = Some (Inr (y, al)) \<and>
           ((\<exists>x al0. x \<noteq> ADDR_NULL \<and>
               find_node cc0 (Inr (mask_id P cc0 (session_id params))) = Some (Inr (x, al0))) \<longrightarrow>
              cc' = cc0) \<and>
           ((\<exists>al0. find_node cc0 (Inr (mask_id P cc0 (session_id params))) =
               Some (Inr (ADDR_NULL, al0))) \<longrightarrow>
              y = head cc')"
    if h: "LRU_ENTRY_LEN \<le> store_len cc" "lru_save_init P cc sc = (cc0, sc0)"
      "lru_save P cc sc params = Some r"
    using lru_save_stores[OF inv h(1) h(2) h(3) assms(2)] by blast
  have rt: "\<exists>cc3 q'. lru_load P cc2 sc2 q = Some (Inr (1, cc3, sc2, q')) \<and>
           key_of cc2 (head cc3) = mask_id P cc2 (session_id params) \<and>
           ((\<exists>al0. find_node cc0 (Inr (mask_id P cc0 (session_id params))) =
               Some (Inr (ADDR_NULL, al0))) \<longrightarrow>
              q' = q\<lparr>version := version params, cipher_suite := cipher_suite params,
                     master_secret := master_secret params\<rparr>)"
    if h: "LRU_ENTRY_LEN \<le> store_len cc" "lru_save_init P cc sc = (cc0, sc0)"
      "lru_save P cc sc params = Some (Inr (cc2, sc2))" "session_id q = session_id params"
    using lru_save_then_load[OF inv h(1) h(2) h(3) assms(2) h(4)] .
  have fresh: "\<exists>cc' sc'. lru_save P cc sc params = Some (Inr (cc', sc')) \<and>
           head cc' \<in> entries cc' \<and>
           key_of cc' (head cc') = mask_id P cc' (session_id params)"
    if h: "store_ptr cc = 0" "LRU_ENTRY_LEN \<le> store_len cc"
  proof -
    have "null_or_below 0 (root cc)" using inv h(1) by (simp add: lru_inv_def tree_ok_def)
    then have root: "root cc = ADDR_NULL" by (simp add: null_or_below_def below_def)
    from lru_save_fresh[OF inv root, of P sc params] h obtain c s where
      run: "lru_save P cc sc params = Some (Inr (c, s))" by auto
    obtain c0 s0 where i: "lru_save_init P cc sc = (c0, s0)"
      by (cases "lru_save_init P cc sc")
    have "root c0 = ADDR_NULL" using lru_save_init_store[OF i] root by simp
    then have e: "find_node c0 (Inr (mask_id P c0 (session_id params))) =
        Some (Inr (ADDR_NULL, ADDR_NULL))"
      by (simp add: find_node_empty returns_def)
    from lru_save_stores[OF inv h(2) i run assms(2)] e
    have "head c \<in> entries c \<and> key_of c (head c) = mask_id P c (session_id params)"
      by auto
    then show ?thesis using run by blast
  qed
  have ld: "(res = 0 \<and>
         (\<not> init_done cc \<or>
          (\<exists>al. find_node cc (Inr (mask_id P cc (session_id params))) =
             Some (Inr (ADDR_NULL, al))))) \<or>
        (res = 1 \<and> init_done cc \<and> head cc1 \<in> entries cc \<and>
         key_of cc (head cc1) = mask_id P cc (session_id params))"
    if h: "lru_load P cc sc params = Some (Inr (res, cc1, sc1, params1))"
  proof (cases "init_done cc")
    case True
    from lru_load_result[OF inv True assms(2) h] True show ?thesis by blast
  next
    case False
    then show ?thesis using h by (simp add: lru_load_def returns_def)
  qed
  have walk: "find_node_loop cc (Inr (mask_id P cc (session_id params))) x y =
          (if lex_less (mask_id P cc (session_id params)) (key_of cc x) then
             find_node_loop cc (Inr (mask_id P cc (session_id params))) (left_of cc x) (x + 92)
           else if mask_id P cc (session_id params) = key_of cc x then Some (Inr (x, y))
           else
             find_node_loop cc (Inr (mask_id P cc (session_id params))) (right_of cc x)
               (x + 96))"
    if x: "x \<in> entries cc"
  proof -
    have b: "below (store_ptr cc) x" using x by (simp add: entries_def)
    have sl: "slot cc x" using inv b by (auto simp: lru_inv_def intro: slab_ok_slot)
    have nn: "x \<noteq> ADDR_NULL" using b by (rule below_not_null)
    show ?thesis by (rule find_node_loop_step[OF sl nn len])
  qed
  show ?thesis using shape len sv rt fresh ld walk by blast
qed

theorem masked_id_keying_witness:
  "\<exists>cc' sc'.
     lru_save demo_primitives_short (demo_cache 300) demo_server (demo_session 1) =
       Some (Inr (cc', sc')) \<and>
     head cc' \<in> entries cc' \<and>
     key_of cc' (head cc') = replicate 20 7 @ replicate 11 0 @ [1] \<and>
     key_of cc' (head cc') \<noteq> session_id (demo_session 1) \<and>
     (\<exists>cc3. lru_load demo_primitives_short cc' sc' (demo_query 1) =
        Some (Inr (1, cc3, sc', demo_session 1)))"
proof -
  have r: "reachable demo_primitives_short (demo_cache 300)"
    by (rule demo_cache_reachable) simp
  have ok: "params_ok (demo_session 1)" by (rule demo_params_ok)
  have room: "store_ptr (demo_cache 300) = 0 \<and> LRU_ENTRY_LEN \<le> store_len (demo_cache 300)"
    by (simp add: demo_cache_fields offs)
  define cc0 where "cc0 = fst (lru_save_init demo_primitives_short (demo_cache 300) demo_server)"
  define sc0 where "sc0 = snd (lru_save_init demo_primitives_short (demo_cache 300) demo_server)"
  have i: "lru_save_init demo_primitives_short (demo_cache 300) demo_server = (cc0, sc0)"
    by (simp add: cc0_def sc0_def)
  have key0: "index_key cc0 = replicate 32 7" "hash cc0 = ()"
    by (simp_all add: cc0_def lru_save_init_def demo_cache_fields demo_primitives_short_def
        demo_server_def split: prod.splits)
  have "root cc0 = ADDR_NULL" using lru_save_init_store[OF i] by (simp add: demo_cache_fields)
  then have e: "find_node cc0 (Inr (mask_id demo_primitives_short cc0
      (session_id (demo_session 1)))) = Some (Inr (ADDR_NULL, ADDR_NULL))"
    by (simp add: find_node_empty returns_def)
  have m0: "mask_id demo_primitives_short cc0 (session_id (demo_session 1)) =
      replicate 20 7 @ replicate 11 0 @ [1]"
    unfolding cc0_def by code_simp
  have q: "session_id (demo_query 1) = session_id (demo_session 1)"
    by (simp add: demo_query_def demo_session_def)
  have qv: "(demo_query 1)\<lparr>version := version (demo_session 1),
      cipher_suite := cipher_suite (demo_session 1),
      master_secret := master_secret (demo_session 1)\<rparr> = demo_session 1"
    by (simp add: demo_query_def demo_session_def)
  from masked_id_keying[OF r ok, where sc = demo_server] room obtain cc' sc' where
    s: "lru_save demo_primitives_short (demo_cache 300) demo_server (demo_session 1) =
          Some (Inr (cc', sc'))"
       "head cc' \<in> entries cc'"
       "key_of cc' (head cc') = mask_id demo_primitives_short cc' (session_id (demo_session 1))"
    by blast
  note t = masked_id_keying[OF r ok, where sc = demo_server and ?cc0.0 = cc0 and ?sc0.0 = sc0
      and r = "Inr (cc', sc')" and ?cc2.0 = cc' and ?sc2.0 = sc' and q = "demo_query 1"]
  have len: "LRU_ENTRY_LEN \<le> store_len (demo_cache 300)" using room by simp
  from t[THEN conjunct2, THEN conjunct2, THEN conjunct1, rule_format, OF conjI[OF len conjI[OF i s(1)]]]
  obtain c where "Inr (cc', sc') = (Inr (c, sc0) :: fault + _)"
    "mask_id demo_primitives_short c (session_id (demo_session 1)) =
       mask_id demo_primitives_short cc0 (session_id (demo_session 1))"
    by blast
  then have m: "mask_id demo_primitives_short cc' (session_id (demo_session 1)) =
      replicate 20 7 @ replicate 11 0 @ [1]"
    using m0 by simp
  from t[THEN conjunct2, THEN conjunct2, THEN conjunct2, THEN conjunct1, rule_format,
      OF conjI[OF len conjI[OF i conjI[OF s(1) q]]]] e
  have "\<exists>cc3 q'. lru_load demo_primitives_short cc' sc' (demo_query 1) =
      Some (Inr (1, cc3, sc', q')) \<and>
      q' = (demo_query 1)\<lparr>version := version (demo_session 1),
        cipher_suite := cipher_suite (demo_session 1),
        master_secret := master_secret (demo_session 1)\<rparr>"
    by blast
  then have ld: "\<exists>cc3. lru_load demo_primitives_short cc' sc' (demo_query 1) =
      Some (Inr (1, cc3, sc', demo_session 1))"
    unfolding qv by blast
  have ne: "replicate 20 7 @ replicate 11 0 @ [1] \<noteq> session_id (demo_session 1)"
    by code_simp
  show ?thesis using s m ld ne by auto
qed


section \<open>Entries the tree loses\<close>

text \<open>
  C1, evaluated on a slab of two entries: sessions 1 and 2 are saved, session 1 is loaded
  (found, with the saved version, cipher suite and master secret, and moved to the head
  of the list), session 3 is saved, which evicts session 2, the tail. Session 1 is still
  in the slab, at offset 0, and in the list; the second load of its ID returns 0 with the
  caller's structure untouched. \<open>remove_node\<close> cleared the root when it removed the
  entry of session 2, a leaf.
\<close>

theorem load_misses_kept_session:
  "run_ops demo_primitives (demo_cache 200) demo_server
     [Save (demo_session 1), Save (demo_session 2), Load (demo_query 1),
      Save (demo_session 3), Load (demo_query 1)] =
   returns ([(1, demo_session 1), (0, demo_query 1)],
            demo_state (demo_entry 1 100 ADDR_NULL ADDR_NULL ADDR_NULL @
                        demo_entry 3 ADDR_NULL 0 ADDR_NULL ADDR_NULL)
              200 100 0 100,
            demo_server_used)"
  by code_simp

text \<open>
  C2, evaluated on the full slab of three entries that the saves 0, 2, 1 leave: the tree
  is 0 at the root, 2 its right child, 1 the left child of 2. The fourth save evicts the
  tail, the entry at 0. Before the eviction the walk for the ID of session 2 finds the
  entry at 100; after it the entry at 100 still holds that ID and the walk from the root
  ends on a null link: the replacement, the entry at 200, became the root without the
  children of the removed node.
\<close>

theorem eviction_drops_other_entry:
  "find_node
     (demo_state (demo_entry 0 100 ADDR_NULL ADDR_NULL 100 @
                  demo_entry 2 200 0 200 ADDR_NULL @
                  demo_entry 1 ADDR_NULL 100 ADDR_NULL ADDR_NULL)
        300 200 0 0) (Inr (session_id (demo_session 2))) = returns (100, 96) \<and>
   lru_save_room
     (demo_state (demo_entry 0 100 ADDR_NULL ADDR_NULL 100 @
                  demo_entry 2 200 0 200 ADDR_NULL @
                  demo_entry 1 ADDR_NULL 100 ADDR_NULL ADDR_NULL)
        300 200 0 0) =
     returns (demo_state (demo_entry 0 100 ADDR_NULL ADDR_NULL 100 @
                          demo_entry 2 200 ADDR_NULL ADDR_NULL ADDR_NULL @
                          demo_entry 1 ADDR_NULL 100 ADDR_NULL ADDR_NULL)
                300 200 100 200, 0) \<and>
   remove_node
     (demo_state (demo_entry 0 100 ADDR_NULL ADDR_NULL 100 @
                  demo_entry 2 200 ADDR_NULL 200 ADDR_NULL @
                  demo_entry 1 ADDR_NULL 100 ADDR_NULL ADDR_NULL)
        300 200 100 0) 0 =
     returns (demo_state (demo_entry 0 100 ADDR_NULL ADDR_NULL 100 @
                          demo_entry 2 200 ADDR_NULL ADDR_NULL ADDR_NULL @
                          demo_entry 1 ADDR_NULL 100 ADDR_NULL ADDR_NULL)
                300 200 100 200) \<and>
   key_of
     (demo_state (demo_entry 0 100 ADDR_NULL ADDR_NULL 100 @
                  demo_entry 2 200 ADDR_NULL ADDR_NULL ADDR_NULL @
                  demo_entry 1 ADDR_NULL 100 ADDR_NULL ADDR_NULL)
        300 200 100 200) 100 = session_id (demo_session 2) \<and>
   find_node
     (demo_state (demo_entry 0 100 ADDR_NULL ADDR_NULL 100 @
                  demo_entry 2 200 ADDR_NULL ADDR_NULL ADDR_NULL @
                  demo_entry 1 ADDR_NULL 100 ADDR_NULL ADDR_NULL)
        300 200 100 200) (Inr (session_id (demo_session 2))) = returns (ADDR_NULL, 296)"
  by code_simp

text \<open>
  C3, evaluated on a slab of three entries and four saves with distinct IDs, in the order
  0, 2, 1, 4, with no load in between: session 0, the least recent, is evicted by the
  fourth save, and sessions 2, 1 and 4 are the three most recent. The load of the ID of
  session 2 returns 0.
\<close>

theorem recent_session_absent:
  "run_ops demo_primitives (demo_cache 300) demo_server
     [Save (demo_session 0), Save (demo_session 2), Save (demo_session 1),
      Save (demo_session 4), Load (demo_query 2)] =
   returns ([(0, demo_query 2)],
            demo_state (demo_entry 4 ADDR_NULL 200 ADDR_NULL ADDR_NULL @
                        demo_entry 2 200 ADDR_NULL ADDR_NULL ADDR_NULL @
                        demo_entry 1 0 100 ADDR_NULL 0)
              300 0 100 200,
            demo_server_used)"
  by (simp only: run_ops.simps three_save_0 three_save_2 three_save_1 three_save_4
      three_load_2 and_then_returns prod.case)

text \<open>
  C5, evaluated on a slab of three entries and eight saves with distinct IDs, in the order
  0, 2, 1, 4, 3, 5, 7, 6, with no load: the slab holds three entries and the ID of
  session 6 is not in the tree, so the eighth save is in neither of the two cases in
  which it drops the session. It does not return: the eviction has made the left link of
  the root designate the root, and the walk for the place of the new entry never ends.
\<close>

theorem save_never_returns:
  "run_ops demo_primitives (demo_cache 300) demo_server
     [Save (demo_session 0), Save (demo_session 2), Save (demo_session 1),
      Save (demo_session 4), Save (demo_session 3), Save (demo_session 5),
      Save (demo_session 7), Save (demo_session 6)] = None"
  by (simp only: run_ops.simps three_save_0 three_save_2 three_save_1 three_save_4
      three_save_3 three_save_5 three_save_7 three_save_6 and_then_returns and_then_None
      prod.case)

end
